theory Spec2Isabelle
  imports Complex_Main
begin

section \<open>Data model\<close>

text \<open>
  The two modules \<^verbatim>\<open>down_sample/lttb.py\<close> and \<^verbatim>\<open>down_sample/ltd.py\<close> work on a
  two-dimensional numpy array of floats. A row of the array is a list of numbers, the
  array is its number of columns (\<^verbatim>\<open>data.shape[1]\<close>) together with the list of its rows
  (\<^verbatim>\<open>data.shape[0]\<close> is the length of that list). The entries of an input array are
  finite numbers, hence reals (no infinity and no nan is given to the code). What the code
  computes from them in floating point, the means and the triangle areas, is a value of
  the type \<open>fval\<close> below, computed with the rounding of the machine, which is a parameter
  of the model. The requested size \<^verbatim>\<open>n_out\<close> is a Python integer, hence an \<^typ>\<open>int\<close>.
  In an array every row has \<open>ncols\<close> entries; no statement below depends on it, since
  the code reads the entries 0 and 1 of a row only after it has tested \<open>ncols = 2\<close>.
\<close>

type_synonym row = "real list"

record ndarray =
  ncols :: nat
  rows :: "row list"

text \<open>
  Every \<^verbatim>\<open>raise ValueError(...)\<close> of the validation is one constructor, named as the
  error kinds of the specification; the remaining constructors are the exceptions that
  Python and numpy raise on their own (an index out of range, the arg-maximum or the
  minimum of an empty sequence, a section count that is not positive, a loop variable read
  before it was bound, a division by zero).
\<close>

datatype error =
    ShapeMismatch
  | NotSorted
  | OutOfRange
  | TooFew
  | IndexError
  | ValueError
  | UnboundLocalError
  | ZeroDivisionError

section \<open>Floating-point values and their arithmetic\<close>

text \<open>A float64 value is a finite number, an infinity or nan. (The sign of a zero has no
  effect on anything the code computes and is not modelled.)\<close>

datatype fval = Finite real | PInf | NInf | NaN

text \<open>The arithmetic of the machine is a parameter of the model, so that every statement
  below holds whatever the rounding is: \<open>rnd\<close> is the value stored for the exact result
  of one operation on finite operands (a rounded number, or an infinity on overflow), and
  \<open>col_sum\<close> is the sum that \<^verbatim>\<open>np.add.reduce\<close> returns for a column of two or more entries
  (numpy chooses the order of the additions by the memory layout of the block).
  Operations with an infinity or nan as operand follow IEEE 754.\<close>

record farith =
  rnd :: "real \<Rightarrow> fval"
  col_sum :: "real list \<Rightarrow> fval"

fun fsub :: "farith \<Rightarrow> fval \<Rightarrow> fval \<Rightarrow> fval" where
  "fsub ar NaN b = NaN"
| "fsub ar a NaN = NaN"
| "fsub ar (Finite x) (Finite y) = rnd ar (x - y)"
| "fsub ar PInf PInf = NaN"
| "fsub ar NInf NInf = NaN"
| "fsub ar PInf b = PInf"
| "fsub ar NInf b = NInf"
| "fsub ar (Finite x) PInf = NInf"
| "fsub ar (Finite x) NInf = PInf"

fun sign_of :: "fval \<Rightarrow> real" where
  "sign_of (Finite x) = sgn x"
| "sign_of PInf = 1"
| "sign_of NInf = - 1"
| "sign_of NaN = 0"

fun fmul :: "farith \<Rightarrow> fval \<Rightarrow> fval \<Rightarrow> fval" where
  "fmul ar NaN b = NaN"
| "fmul ar a NaN = NaN"
| "fmul ar (Finite x) (Finite y) = rnd ar (x * y)"
| "fmul ar a b =
     (if sign_of a * sign_of b = 0 then NaN
      else if 0 < sign_of a * sign_of b then PInf else NInf)"

fun fabs :: "fval \<Rightarrow> fval" where
  "fabs (Finite x) = Finite \<bar>x\<bar>"
| "fabs PInf = PInf"
| "fabs NInf = PInf"
| "fabs NaN = NaN"

text \<open>Division of a sum by the positive number of its terms.\<close>

fun fdiv_count :: "farith \<Rightarrow> fval \<Rightarrow> nat \<Rightarrow> fval" where
  "fdiv_count ar (Finite x) n = rnd ar (x / real n)"
| "fdiv_count ar a n = a"

text \<open>The comparison \<^verbatim>\<open>a <= b\<close> of two floats: false as soon as one of them is nan.\<close>

fun fle :: "fval \<Rightarrow> fval \<Rightarrow> bool" where
  "fle NaN b = False"
| "fle a NaN = False"
| "fle NInf b = True"
| "fle a PInf = True"
| "fle (Finite x) (Finite y) = (x \<le> y)"
| "fle a b = False"

section \<open>The numpy and Python primitives the code calls\<close>

text \<open>\<^verbatim>\<open>list.index(v)\<close>: the position of the first element equal to \<open>v\<close>.\<close>

fun index_of :: "'a \<Rightarrow> 'a list \<Rightarrow> nat" where
  "index_of v [] = 0"
| "index_of v (x # xs) = (if x = v then 0 else Suc (index_of v xs))"

text \<open>\<^verbatim>\<open>np.argmax\<close> and \<^verbatim>\<open>np.argmin\<close> of a non-empty column of the input (finite
  numbers, compared as they are): the first position of the greatest (least) entry. Both
  raise on an empty vector; the code calls them on a series of four rows or more.\<close>

definition argmax :: "real list \<Rightarrow> nat" where
  "argmax xs = index_of (Max (set xs)) xs"

definition argmin :: "real list \<Rightarrow> nat" where
  "argmin xs = index_of (Min (set xs)) xs"

text \<open>\<^verbatim>\<open>np.argsort\<close>: the indices of the vector in ascending order of their entries.
  Equal entries keep their order here (numpy's default sort does so on short vectors and
  promises nothing on long ones).\<close>

definition argsort :: "real list \<Rightarrow> nat list" where
  "argsort xs = sort_key (\<lambda>i. xs ! i) [0..<length xs]"

text \<open>\<^verbatim>\<open>np.array_split(ary, k)\<close> for \<open>k > 0\<close>: \<open>k\<close> consecutive slices, the first
  \<open>length ary mod k\<close> of them one element longer than the others. numpy cuts at the
  running sums of the section sizes; \<open>split_sizes\<close> takes the sections off the front one
  after the other, which is the same cut.\<close>

fun split_sizes :: "nat list \<Rightarrow> 'a list \<Rightarrow> 'a list list" where
  "split_sizes [] xs = []"
| "split_sizes (n # ns) xs = take n xs # split_sizes ns (drop n xs)"

definition array_split :: "'a list \<Rightarrow> nat \<Rightarrow> 'a list list" where
  "array_split ary k =
     (let each_section = length ary div k; extras = length ary mod k
      in split_sizes (replicate extras (each_section + 1) @ replicate (k - extras) each_section) ary)"

text \<open>\<^verbatim>\<open>np.argmax\<close> of a vector of computed floats, as numpy's loop runs: the running
  maximum is replaced by every entry that is not \<^verbatim>\<open><=\<close> it, and the loop stops at the
  first nan. The result is the position of the first nan if there is one, and of the first
  greatest entry otherwise. numpy raises on an empty vector; the caller tests for that.\<close>

fun argmax_loop :: "fval \<Rightarrow> nat \<Rightarrow> nat \<Rightarrow> fval list \<Rightarrow> nat" where
  "argmax_loop mp max_ind i [] = max_ind"
| "argmax_loop mp max_ind i (x # xs) =
     (if \<not> fle x mp then (if x = NaN then i else argmax_loop x i (Suc i) xs)
      else argmax_loop mp max_ind (Suc i) xs)"

definition np_argmax :: "fval list \<Rightarrow> nat" where
  "np_argmax xs =
     (case xs of [] \<Rightarrow> 0 | x # rest \<Rightarrow> if x = NaN then 0 else argmax_loop x 0 1 rest)"

text \<open>\<^verbatim>\<open>a.mean(axis=0)\<close> of a two-column block: for each column, the sum of the column
  divided by the number of rows. The sum of a single entry is that entry. The mean of an
  empty block is \<^verbatim>\<open>[nan, nan]\<close> (numpy warns and goes on).\<close>

definition np_sum :: "farith \<Rightarrow> real list \<Rightarrow> fval" where
  "np_sum ar xs = (case xs of [] \<Rightarrow> Finite 0 | [x] \<Rightarrow> Finite x | _ \<Rightarrow> col_sum ar xs)"

definition mean_axis0 :: "farith \<Rightarrow> row list \<Rightarrow> fval list" where
  "mean_axis0 ar a =
     (if a = [] then [NaN, NaN]
      else [fdiv_count ar (np_sum ar (map (\<lambda>r. r ! 0) a)) (length a),
            fdiv_count ar (np_sum ar (map (\<lambda>r. r ! 1) a)) (length a)])"

text \<open>\<^verbatim>\<open>data[1: len(data) - 1]\<close>: the series without its first and last row.\<close>

definition interior :: "'a list \<Rightarrow> 'a list" where
  "interior data = drop 1 (take (length data - 1) data)"

section \<open>Triangle areas (both modules, lines 5--12)\<close>

text \<open>\<^verbatim>\<open>_area_of_triangles(this_bin, pre_point, next_point)\<close>, one area per row of
  \<^verbatim>\<open>this_bin\<close> (an identifier cannot start with an underscore here, so the source's
  leading underscores are dropped throughout). \<open>triangle_area\<close> is the entry for one row
  \<open>b\<close>: every subtraction and multiplication of lines 9--12 is one operation of the
  machine, in the order of the source. \<^verbatim>\<open>pre_point\<close> and the rows of \<^verbatim>\<open>this_bin\<close> hold
  finite numbers, \<^verbatim>\<open>next_point\<close> is a computed mean.\<close>

definition triangle_area :: "farith \<Rightarrow> row \<Rightarrow> fval list \<Rightarrow> row \<Rightarrow> fval" where
  "triangle_area ar pre_point next_point b =
     fmul ar (Finite 0.5)
       (fabs
         (fsub ar
           (fmul ar (fsub ar (Finite (pre_point ! 0)) (next_point ! 0))
                    (fsub ar (Finite (b ! 1)) (Finite (pre_point ! 1))))
           (fmul ar (fsub ar (Finite (pre_point ! 0)) (Finite (b ! 0)))
                    (fsub ar (next_point ! 1) (Finite (pre_point ! 1))))))"

definition area_of_triangles :: "farith \<Rightarrow> row list \<Rightarrow> row \<Rightarrow> fval list \<Rightarrow> fval list" where
  "area_of_triangles ar this_bin pre_point next_point =
     map (triangle_area ar pre_point next_point) this_bin"

section \<open>Selection of the output rows (lttb.py lines 54--89, ltd.py lines 139--173)\<close>

text \<open>The two modules end with the same text. One pass of the loop body is split in two:
  \<open>choose_point\<close> is the row that the pass stores, \<open>select_step\<close> stores it in
  \<^verbatim>\<open>out[i + 1]\<close>. The exceptions come in the order of the source.\<close>

definition next_bin_of :: "row list \<Rightarrow> int \<Rightarrow> row list list \<Rightarrow> nat \<Rightarrow> error + row list" where
  "next_bin_of data n_bins data_bins i =
     (if int i < n_bins - 1
      then (if i + 1 < length data_bins then Inr (data_bins ! (i + 1)) else Inl IndexError)
      else Inr (drop (length data - 1) data))"

definition choose_point ::
  "farith \<Rightarrow> row list \<Rightarrow> int \<Rightarrow> row list list \<Rightarrow> row \<Rightarrow> row \<Rightarrow> nat \<Rightarrow> row list \<Rightarrow> error + row" where
  "choose_point ar data n_bins data_bins max_point min_point i out =
     (let this_bin = data_bins ! i in
      if max_point \<in> set this_bin then Inr max_point
      else if min_point \<in> set this_bin then Inr min_point
      else
        (case next_bin_of data n_bins data_bins i of
           Inl e \<Rightarrow> Inl e
         | Inr next_bin \<Rightarrow>
             if \<not> i < length out then Inl IndexError
             else if this_bin = [] then Inl ValueError
             else
               Inr (this_bin !
                      np_argmax (area_of_triangles ar this_bin (out ! i) (mean_axis0 ar next_bin)))))"

definition select_step ::
  "farith \<Rightarrow> row list \<Rightarrow> int \<Rightarrow> row list list \<Rightarrow> row \<Rightarrow> row \<Rightarrow> nat \<Rightarrow> row list \<Rightarrow> error + row list" where
  "select_step ar data n_bins data_bins max_point min_point i out =
     (case choose_point ar data n_bins data_bins max_point min_point i out of
        Inl e \<Rightarrow> Inl e
      | Inr p \<Rightarrow> if i + 1 < length out then Inr (out[i + 1 := p]) else Inl IndexError)"

text \<open>\<^verbatim>\<open>for i in range(len(data_bins))\<close>, over the list of the indices still to visit.\<close>

fun select_loop ::
  "farith \<Rightarrow> row list \<Rightarrow> int \<Rightarrow> row list list \<Rightarrow> row \<Rightarrow> row \<Rightarrow> nat list \<Rightarrow> row list \<Rightarrow> error + row list" where
  "select_loop ar data n_bins data_bins max_point min_point [] out = Inr out"
| "select_loop ar data n_bins data_bins max_point min_point (i # is) out =
     (case select_step ar data n_bins data_bins max_point min_point i out of
        Inl e \<Rightarrow> Inl e
      | Inr out' \<Rightarrow> select_loop ar data n_bins data_bins max_point min_point is out')"

text \<open>The rows with the greatest and the least second entry, first occurrence each
  (\<^verbatim>\<open>data[np.argmax(data, axis=0)[1]]\<close>, \<^verbatim>\<open>data[np.argmin(data, axis=0)[1]]\<close>).\<close>

definition max_point_of :: "row list \<Rightarrow> row" where
  "max_point_of data = data ! argmax (map (\<lambda>r. r ! 1) data)"

definition min_point_of :: "row list \<Rightarrow> row" where
  "min_point_of data = data ! argmin (map (\<lambda>r. r ! 1) data)"

text \<open>The array \<^verbatim>\<open>out\<close> before the loop: \<^verbatim>\<open>n_out\<close> rows of zeros, then the first and the
  last row of the series at its two ends.\<close>

definition initial_out :: "row list \<Rightarrow> int \<Rightarrow> row list" where
  "initial_out data n_out =
     (replicate (nat n_out) [0, 0]) [0 := data ! 0, nat n_out - 1 := data ! (length data - 1)]"

text \<open>The common tail of \<^verbatim>\<open>lttb\<close> and \<^verbatim>\<open>ltd\<close>, reached with \<open>3 \<le> n_out < length data\<close>.\<close>

definition select_points ::
  "farith \<Rightarrow> row list \<Rightarrow> int \<Rightarrow> row list list \<Rightarrow> error + ndarray" where
  "select_points ar data n_out data_bins =
     (case select_loop ar data (n_out - 2) data_bins (max_point_of data) (min_point_of data)
             [0..<length data_bins] (initial_out data n_out) of
        Inl e \<Rightarrow> Inl e
      | Inr out \<Rightarrow> Inr \<lparr>ncols = 2, rows = out\<rparr>)"

section \<open>The static variant (lttb.py)\<close>

text \<open>\<^verbatim>\<open>any(data[:, 0] != np.sort(data[:, 0]))\<close>: some entry of the first column differs
  from the entry at the same position of the sorted column.\<close>

definition column0 :: "ndarray \<Rightarrow> real list" where
  "column0 data = map (\<lambda>r. r ! 0) (rows data)"

definition not_sorted_on_first_column :: "ndarray \<Rightarrow> bool" where
  "not_sorted_on_first_column data =
     list_ex (\<lambda>(a, b). a \<noteq> b) (zip (column0 data) (sort (column0 data)))"

definition lttb :: "farith \<Rightarrow> ndarray \<Rightarrow> int \<Rightarrow> error + ndarray" where
  "lttb ar data n_out =
     (if ncols data \<noteq> 2 then Inl ShapeMismatch
      else if not_sorted_on_first_column data then Inl NotSorted
      else if n_out > int (length (rows data)) then Inl OutOfRange
      else if n_out = int (length (rows data)) then Inr data
      else if n_out < 3 then Inl TooFew
      else select_points ar (rows data) n_out
             (array_split (interior (rows data)) (nat (n_out - 2))))"

section \<open>The dynamic variant (ltd.py)\<close>

text \<open>The body of the inner \<^verbatim>\<open>for\<close> of \<^verbatim>\<open>_split_data\<close> (lines 29--44): bucket \<open>i\<close> with the
  last row of the bucket before it (the first row of the series for bucket 0) in front and
  the first row of the bucket after it (the last row of the series for the last bucket)
  behind. The test \<^verbatim>\<open>i == 0\<close> comes first, so a single bucket reads \<^verbatim>\<open>data_bins[1]\<close>.\<close>

definition bin_with_neighbours :: "row list \<Rightarrow> row list list \<Rightarrow> nat \<Rightarrow> error + row list" where
  "bin_with_neighbours data data_bins i =
     (if i = 0 then
        (if data = [] then Inl IndexError
         else if \<not> 1 < length data_bins then Inl IndexError
         else if data_bins ! 1 = [] then Inl IndexError
         else Inr ([data ! 0] @ data_bins ! 0 @ [data_bins ! 1 ! 0]))
      else if i = length data_bins - 1 then
        (if data_bins ! (i - 1) = [] then Inl IndexError
         else if data = [] then Inl IndexError
         else Inr ([last (data_bins ! (i - 1))] @ data_bins ! i @ [last data]))
      else
        (if data_bins ! (i - 1) = [] then Inl IndexError
         else if data_bins ! (i + 1) = [] then Inl IndexError
         else Inr ([last (data_bins ! (i - 1))] @ data_bins ! i @ [data_bins ! (i + 1) ! 0])))"

text \<open>The inner \<^verbatim>\<open>for\<close> itself (lines 27--45). \<^verbatim>\<open>linregress(this_bin).stderr\<close> is a function
  of scipy, not of this repository: it is the parameter \<open>stderr\<close>, a score for every block
  of rows.\<close>

fun sse_loop ::
  "(row list \<Rightarrow> real) \<Rightarrow> row list \<Rightarrow> row list list \<Rightarrow> nat list \<Rightarrow> error + real list" where
  "sse_loop stderr data data_bins [] = Inr []"
| "sse_loop stderr data data_bins (i # is) =
     (case bin_with_neighbours data data_bins i of
        Inl e \<Rightarrow> Inl e
      | Inr this_bin \<Rightarrow>
          (case sse_loop stderr data data_bins is of
             Inl e \<Rightarrow> Inl e
           | Inr sse \<Rightarrow> Inr (stderr this_bin # sse)))"

text \<open>\<^verbatim>\<open>_find_max_bin\<close> (lines 51--62). The loop walks \<^verbatim>\<open>sort_sse\<close> from its last entry
  to its first and returns the first bucket of at least two rows. When it runs out, the
  loop variable is left at \<^verbatim>\<open>-len(sort_sse)\<close>, so that the last line returns
  \<^verbatim>\<open>sort_sse[0]\<close>; with no bucket at all the variable was never bound.\<close>

fun find_max_loop :: "row list list \<Rightarrow> nat list \<Rightarrow> error + nat option" where
  "find_max_loop data_bins [] = Inr None"
| "find_max_loop data_bins (k # ks) =
     (if \<not> k < length data_bins then Inl IndexError
      else if length (data_bins ! k) \<ge> 2 then Inr (Some k)
      else find_max_loop data_bins ks)"

definition find_max_bin :: "row list list \<Rightarrow> real list \<Rightarrow> error + nat" where
  "find_max_bin data_bins sse_list =
     (let sort_sse = argsort sse_list in
      case find_max_loop data_bins (rev sort_sse) of
        Inl e \<Rightarrow> Inl e
      | Inr (Some k) \<Rightarrow> Inr k
      | Inr None \<Rightarrow> if sort_sse = [] then Inl UnboundLocalError else Inr (sort_sse ! 0))"

text \<open>\<^verbatim>\<open>_find_min_bin\<close> (lines 65--72); \<^verbatim>\<open>min\<close> of an empty list raises.\<close>

definition find_min_bin :: "real list \<Rightarrow> error + nat" where
  "find_min_bin sse_list =
     (let sum_pairs = map (\<lambda>i. sse_list ! i + sse_list ! (i + 1)) [0..<length sse_list - 1]
      in if sum_pairs = [] then Inl ValueError
         else Inr (index_of (Min (set sum_pairs)) sum_pairs))"

text \<open>\<^verbatim>\<open>_resize_bins\<close> (lines 75--95): the \<^verbatim>\<open>for\<close> over the buckets with the list
  \<^verbatim>\<open>resize_bins\<close> as accumulator, then the function.\<close>

fun resize_loop ::
  "row list list \<Rightarrow> nat \<Rightarrow> nat \<Rightarrow> nat list \<Rightarrow> row list list \<Rightarrow> error + row list list" where
  "resize_loop data_bins max_index min_index [] resize_bins = Inr resize_bins"
| "resize_loop data_bins max_index min_index (i # is) resize_bins =
     (if i = max_index then
        resize_loop data_bins max_index min_index is
          (resize_bins @ array_split (data_bins ! i) 2)
      else if i = min_index then
        (if i + 1 < length data_bins then
           resize_loop data_bins max_index min_index is
             (resize_bins @ [data_bins ! i @ data_bins ! (i + 1)])
         else Inl IndexError)
      else if i = min_index + 1 then
        resize_loop data_bins max_index min_index is resize_bins
      else
        resize_loop data_bins max_index min_index is (resize_bins @ [data_bins ! i]))"

definition resize_bins :: "row list list \<Rightarrow> real list \<Rightarrow> error + row list list" where
  "resize_bins data_bins sse_list =
     (case find_max_bin data_bins sse_list of
        Inl e \<Rightarrow> Inl e
      | Inr max_index \<Rightarrow>
          (case find_min_bin sse_list of
             Inl e \<Rightarrow> Inl e
           | Inr min_index \<Rightarrow>
               resize_loop data_bins max_index min_index [0..<length data_bins] []))"

text \<open>The \<^verbatim>\<open>while\<close> of \<^verbatim>\<open>_split_data\<close> (lines 26--47), by the number of passes left.\<close>

fun refine ::
  "(row list \<Rightarrow> real) \<Rightarrow> row list \<Rightarrow> nat \<Rightarrow> row list list \<Rightarrow> error + row list list" where
  "refine stderr data 0 data_bins = Inr data_bins"
| "refine stderr data (Suc k) data_bins =
     (case sse_loop stderr data data_bins [0..<length data_bins] of
        Inl e \<Rightarrow> Inl e
      | Inr sse_list \<Rightarrow>
          (case resize_bins data_bins sse_list of
             Inl e \<Rightarrow> Inl e
           | Inr data_bins' \<Rightarrow> refine stderr data k data_bins'))"

text \<open>\<^verbatim>\<open>int(len(data)/(n_out*10))\<close> for \<open>n_out > 0\<close>: the quotient of two non-negative
  numbers, rounded down.\<close>

definition iteration_num :: "row list \<Rightarrow> int \<Rightarrow> nat" where
  "iteration_num data n_out = nat (int (length data) div (n_out * 10))"

text \<open>\<^verbatim>\<open>_split_data\<close> (lines 15--48). Line 22 divides by \<^verbatim>\<open>n_out*10\<close> and line 24 asks
  numpy for \<^verbatim>\<open>n_out - 2\<close> sections; both raise before the loop when \<^verbatim>\<open>n_out\<close> is too
  small.\<close>

definition split_data ::
  "(row list \<Rightarrow> real) \<Rightarrow> row list \<Rightarrow> int \<Rightarrow> error + row list list" where
  "split_data stderr data n_out =
     (if n_out = 0 then Inl ZeroDivisionError
      else if n_out - 2 \<le> 0 then Inl ValueError
      else refine stderr data (iteration_num data n_out)
             (array_split (interior data) (nat (n_out - 2))))"

definition ltd ::
  "farith \<Rightarrow> (row list \<Rightarrow> real) \<Rightarrow> ndarray \<Rightarrow> int \<Rightarrow> error + ndarray" where
  "ltd ar stderr data n_out =
     (if ncols data \<noteq> 2 then Inl ShapeMismatch
      else if not_sorted_on_first_column data then Inl NotSorted
      else if n_out > int (length (rows data)) then Inl OutOfRange
      else if n_out = int (length (rows data)) then Inr data
      else if n_out < 3 then Inl TooFew
      else
        (case split_data stderr (rows data) n_out of
           Inl e \<Rightarrow> Inl e
         | Inr data_bins \<Rightarrow> select_points ar (rows data) n_out data_bins))"

section \<open>Vocabulary of the properties\<close>

text \<open>A valid input, as the docstrings of \<^verbatim>\<open>lttb\<close> and \<^verbatim>\<open>ltd\<close> state the constraints:
  two columns, the first column in ascending order (equal neighbours allowed), and
  \<open>3 \<le> n_out \<le> nrows(data)\<close>.\<close>

definition valid_input :: "ndarray \<Rightarrow> int \<Rightarrow> bool" where
  "valid_input data n_out \<longleftrightarrow>
     ncols data = 2 \<and> sorted (column0 data) \<and> 3 \<le> n_out \<and> n_out \<le> int (length (rows data))"

text \<open>The buckets of the static variant: \<^verbatim>\<open>np.array_split(data[1: len(data) - 1], n_bins)\<close>.\<close>

definition static_bins :: "row list \<Rightarrow> int \<Rightarrow> row list list" where
  "static_bins data n_out = array_split (interior data) (nat (n_out - 2))"

text \<open>The order in which \<^verbatim>\<open>np.argmax\<close> ranks computed values: nan counts as the
  greatest, then come plus infinity, the finite numbers in their order, and minus
  infinity.\<close>

definition np_le :: "fval \<Rightarrow> fval \<Rightarrow> bool" where
  "np_le a b \<longleftrightarrow> b = NaN \<or> fle a b"



text \<open>Exact arithmetic, where nothing is rounded, and the notions of the specification
  that the computed values become under it: a point is a pair, the area of a triangle is
  given by the shoelace formula, the centroid of a bucket is the mean of its points
  coordinate by coordinate.\<close>

definition exact_arith :: farith where
  "exact_arith = \<lparr>rnd = Finite, col_sum = (\<lambda>xs. Finite (sum_list xs))\<rparr>"

definition point_of :: "row \<Rightarrow> real \<times> real" where
  "point_of r = (r ! 0, r ! 1)"

definition shoelace_area :: "real \<times> real \<Rightarrow> real \<times> real \<Rightarrow> real \<times> real \<Rightarrow> real" where
  "shoelace_area a b c =
     \<bar>fst a * (snd b - snd c) + fst b * (snd c - snd a) + fst c * (snd a - snd b)\<bar> / 2"

definition centroid :: "row list \<Rightarrow> real \<times> real" where
  "centroid ps =
     (sum_list (map (\<lambda>r. r ! 0) ps) / real (length ps),
      sum_list (map (\<lambda>r. r ! 1) ps) / real (length ps))"

text \<open>The arithmetic of IEEE 754 binary64 with rounding to nearest, ties to even, for the
  closed examples. \<open>binary_exponent\<close> searches the exponent \<open>e\<close> with
  \<open>2 ^ e \<le> a < 2 ^ (e + 1)\<close> (the number of steps given covers the whole range of the
  format); the spacing of the floats around \<open>a\<close> is \<open>2 ^ (e - 52)\<close>, and
  \<open>2 ^ (- 1074)\<close> below the normal range; the rounded number \<open>n * 2 ^ (e - 52)\<close>
  overflows when it reaches \<open>2 ^ 1024\<close>, that is when \<open>e \<ge> 1024\<close>, or \<open>e = 1023\<close> and
  \<open>n = 2 ^ 53\<close>. The columns are summed row after row, as numpy does for a block in row-major
  layout.\<close>

definition round_half_even :: "real \<Rightarrow> int" where
  "round_half_even x =
     (let f = \<lfloor>x\<rfloor>; d = x - of_int f
      in if d < 1 / 2 then f else if 1 / 2 < d then f + 1 else if even f then f else f + 1)"

fun binary_exponent :: "nat \<Rightarrow> real \<Rightarrow> int" where
  "binary_exponent 0 a = 0"
| "binary_exponent (Suc k) a =
     (if 2 \<le> a then binary_exponent k (a / 2) + 1
      else if a < 1 then binary_exponent k (a * 2) - 1
      else 0)"

definition pow2 :: "int \<Rightarrow> real" where
  "pow2 e = (if 0 \<le> e then 2 ^ nat e else 1 / 2 ^ nat (- e))"

definition binary64_round :: "real \<Rightarrow> fval" where
  "binary64_round x =
     (if x = 0 then Finite 0
      else
        (let a = \<bar>x\<bar>;
             e = max (binary_exponent 2200 a) (- 1022);
             q = pow2 (e - 52);
             n = round_half_even (a / q)
         in if 1024 \<le> e \<or> (e = 1023 \<and> n = 2 ^ 53) then (if 0 < x then PInf else NInf)
            else Finite (sgn x * (of_int n * q))))"

fun add_in_turn :: "fval \<Rightarrow> real list \<Rightarrow> fval" where
  "add_in_turn acc [] = acc"
| "add_in_turn acc (x # xs) =
     add_in_turn (case acc of Finite s \<Rightarrow> binary64_round (s + x) | _ \<Rightarrow> acc) xs"

definition binary64_arith :: farith where
  "binary64_arith =
     \<lparr>rnd = binary64_round,
      col_sum = (\<lambda>xs. case xs of [] \<Rightarrow> Finite 0 | x # rest \<Rightarrow> add_in_turn (Finite x) rest)\<rparr>"

text \<open>Some bucket of the static partition holds both the stored maximum row and the
  stored minimum row (membership is by value, as \<^verbatim>\<open>max_point in this_bin_lists\<close> tests
  it).\<close>

definition extrema_share_bucket :: "row list \<Rightarrow> int \<Rightarrow> bool" where
  "extrema_share_bucket data n_out \<longleftrightarrow>
     list_ex (\<lambda>b. max_point_of data \<in> set b \<and> min_point_of data \<in> set b)
       (static_bins data n_out)"

text \<open>The four error kinds that the validation raises.\<close>

definition validation_error :: "error \<Rightarrow> bool" where
  "validation_error e \<longleftrightarrow> e = ShapeMismatch \<or> e = NotSorted \<or> e = OutOfRange \<or> e = TooFew"

subsection \<open>Example inputs\<close>

text \<open>Modelled from the spec: the fit-error score, ``the standard error of a least-squares
  linear fit'' through a block of points, is computed by scipy's \<^verbatim>\<open>linregress\<close>, which
  is not part of the repository. Every statement about \<open>ltd\<close> below holds for an arbitrary
  score; this instance (the textbook standard error of the fitted slope) only serves to
  write closed examples.\<close>

definition linregress_stderr :: "row list \<Rightarrow> real" where
  "linregress_stderr pts =
     (let n = real (length pts);
          xm = sum_list (map (\<lambda>r. r ! 0) pts) / n;
          ym = sum_list (map (\<lambda>r. r ! 1) pts) / n;
          ssx = sum_list (map (\<lambda>r. (r ! 0 - xm)\<^sup>2) pts);
          ssy = sum_list (map (\<lambda>r. (r ! 1 - ym)\<^sup>2) pts);
          sxy = sum_list (map (\<lambda>r. (r ! 0 - xm) * (r ! 1 - ym)) pts)
      in sqrt ((ssy - sxy\<^sup>2 / ssx) / (n - 2) / ssx))"

text \<open>Concrete series for the examples: the ten points of the specification's scenario,
  a series of two rows, a series of four rows, and a series whose first two rows share
  their x-value.\<close>

definition scenario_series :: ndarray where
  "scenario_series =
     \<lparr>ncols = 2,
      rows = [[0, 0], [1, 5], [2, 1], [3, 9], [4, 2], [5, 3], [6, 8], [7, 1], [8, 4], [9, 0]]\<rparr>"

definition two_rows :: ndarray where
  "two_rows = \<lparr>ncols = 2, rows = [[0, 0], [1, 1]]\<rparr>"

definition four_rows :: ndarray where
  "four_rows = \<lparr>ncols = 2, rows = [[0, 0], [1, 2], [2, 1], [3, 3]]\<rparr>"

definition repeated_x :: ndarray where
  "repeated_x = \<lparr>ncols = 2, rows = [[0, 0], [0, 1], [1, 2], [2, 3]]\<rparr>"

text \<open>The series of the \<open>n\<close> points \<open>(0, 0), (1, 1), \<dots>, (n - 1, n - 1)\<close>.\<close>

definition line_series :: "nat \<Rightarrow> ndarray" where
  "line_series n = \<lparr>ncols = 2, rows = map (\<lambda>i. [real i, real i]) [0..<n]\<rparr>"

text \<open>The series \<open>(0, 0), (1, 2.3000000000000003), (2, 3.6), (3, 3.9)\<close>, each entry the
  exact value of the binary64 number that Python reads from the decimal literal.\<close>

definition rounding_series :: ndarray where
  "rounding_series =
     \<lparr>ncols = 2,
      rows = [[0, 0], [1, 5179139571476071 / 2 ^ 51], [2, 8106479329266893 / 2 ^ 51],
              [3, 8782019273372467 / 2 ^ 51]]\<rparr>"

text \<open>Two series in which the maximum and the minimum fall into the same bucket for
  \<open>n_out = 4\<close>: one with strictly ascending x, one whose minimum row occurs twice.\<close>

definition shared_bucket_series :: ndarray where
  "shared_bucket_series = \<lparr>ncols = 2, rows = [[0, 0], [1, 5], [2, -1], [3, 1], [4, 0]]\<rparr>"

definition repeated_minimum :: ndarray where
  "repeated_minimum = \<lparr>ncols = 2, rows = [[0, 0], [1, 5], [2, -1], [2, -1], [3, 0]]\<rparr>"

section \<open>Validation\<close>

lemma list_ex_zip_neq:
  "length xs = length ys \<Longrightarrow> list_ex (\<lambda>(a, b). a \<noteq> b) (zip xs ys) \<longleftrightarrow> xs \<noteq> ys"
  by (induction xs ys rule: list_induct2) auto

lemma not_sorted_iff: "not_sorted_on_first_column data \<longleftrightarrow> \<not> sorted (column0 data)"
proof -
  let ?xs = "column0 data"
  have "list_ex (\<lambda>(a, b). a \<noteq> b) (zip ?xs (sort ?xs)) \<longleftrightarrow> ?xs \<noteq> sort ?xs"
    by (rule list_ex_zip_neq) simp
  also have "\<dots> \<longleftrightarrow> \<not> sorted ?xs"
    by (metis sorted_sort sorted_sort_id)
  finally show ?thesis
    by (simp add: not_sorted_on_first_column_def)
qed

text \<open>Claim C9. With two columns and the first column in ascending order, a call of either
  variant with \<open>n_out\<close> equal to the number of rows returns the input array itself: the
  test \<^verbatim>\<open>n_out == data.shape[0]\<close> returns before any bucket is built.\<close>

theorem identity_when_n_out_is_length:
  assumes "ncols data = 2" and "sorted (column0 data)" and "n_out = int (length (rows data))"
  shows "lttb ar data n_out = Inr data \<and> ltd ar stderr data n_out = Inr data"
  using assms by (simp add: lttb_def ltd_def not_sorted_iff)

text \<open>The ten-point series of the specification, asked for ten points.\<close>

theorem identity_when_n_out_is_length_witness:
  "lttb binary64_arith scenario_series 10 = Inr scenario_series \<and>
   ltd binary64_arith linregress_stderr scenario_series 10 = Inr scenario_series"
  using identity_when_n_out_is_length [of scenario_series 10 binary64_arith linregress_stderr]
  by (simp add: scenario_series_def column0_def)

text \<open>Claim C3, as stated, fails: with \<open>n_out\<close> equal to the number of rows the identity
  test comes before the test \<^verbatim>\<open>n_out < 3\<close>, so a series of two rows asked for two points
  is returned unchanged instead of being refused.\<close>

theorem too_few_counterexample:
  "ncols two_rows = 2 \<and> sorted (column0 two_rows) \<and> 2 \<le> int (length (rows two_rows)) \<and>
   lttb binary64_arith two_rows 2 = Inr two_rows \<and>
   ltd binary64_arith linregress_stderr two_rows 2 = Inr two_rows \<and>
   lttb binary64_arith two_rows 2 \<noteq> Inl TooFew \<and>
   ltd binary64_arith linregress_stderr two_rows 2 \<noteq> Inl TooFew"
  by (simp add: lttb_def ltd_def not_sorted_iff two_rows_def column0_def)

text \<open>Claim C3, amended. With two columns and the first column in ascending order, a call
  of either variant with \<open>n_out < 3\<close> and \<open>n_out\<close> strictly below the number of rows
  fails with \<open>TooFew\<close>.\<close>

theorem too_few_below_length:
  assumes "ncols data = 2" and "sorted (column0 data)"
    and "n_out < int (length (rows data))" and "n_out < 3"
  shows "lttb ar data n_out = Inl TooFew \<and> ltd ar stderr data n_out = Inl TooFew"
  using assms by (simp add: lttb_def ltd_def not_sorted_iff)

text \<open>A series of four rows, asked for two points.\<close>

theorem too_few_below_length_witness:
  "lttb binary64_arith four_rows 2 = Inl TooFew \<and> ltd binary64_arith linregress_stderr four_rows 2 = Inl TooFew"
  using too_few_below_length [of four_rows 2 binary64_arith linregress_stderr]
  by (simp add: four_rows_def column0_def)

section \<open>The dynamic variant without refinement\<close>

lemma iteration_num_small:
  "0 < n_out \<Longrightarrow> int (length data) < n_out * 10 \<Longrightarrow> iteration_num data n_out = 0"
  by (simp add: iteration_num_def)

lemma split_data_small:
  "3 \<le> n_out \<Longrightarrow> int (length data) < n_out * 10 \<Longrightarrow>
   split_data stderr data n_out = Inr (static_bins data n_out)"
  by (simp add: split_data_def iteration_num_small static_bins_def)

lemma ltd_eq_lttb_small:
  "int (length (rows data)) < n_out * 10 \<Longrightarrow> ltd ar stderr data n_out = lttb ar data n_out"
  by (simp add: ltd_def lttb_def split_data_small static_bins_def)

text \<open>Claim C5. On a valid input with fewer than \<open>10 * n_out\<close> rows the dynamic variant
  makes no refinement pass (\<open>iteration_num\<close> is zero), its buckets are the equal
  partition of the static variant, and its result is the result of the static variant.\<close>

theorem ltd_without_refinement:
  assumes "valid_input data n_out" and "int (length (rows data)) < n_out * 10"
  shows "iteration_num (rows data) n_out = 0 \<and>
         split_data stderr (rows data) n_out = Inr (static_bins (rows data) n_out) \<and>
         ltd ar stderr data n_out = lttb ar data n_out"
  using assms
  by (simp add: valid_input_def iteration_num_small split_data_small ltd_eq_lttb_small)

text \<open>The ten-point series of the specification with \<open>n_out = 5\<close>: three buckets, no pass,
  and the same five rows from both variants.\<close>

theorem ltd_without_refinement_witness:
  "valid_input scenario_series 5 \<and>
   iteration_num (rows scenario_series) 5 = 0 \<and>
   split_data linregress_stderr (rows scenario_series) 5
     = Inr [[[1, 5], [2, 1], [3, 9]], [[4, 2], [5, 3], [6, 8]], [[7, 1], [8, 4]]] \<and>
   ltd binary64_arith linregress_stderr scenario_series 5 = lttb binary64_arith scenario_series 5 \<and>
   lttb binary64_arith scenario_series 5 = Inr \<lparr>ncols = 2, rows = [[0, 0], [3, 9], [4, 2], [8, 4], [9, 0]]\<rparr>"
proof -
  have v: "valid_input scenario_series 5"
    by (simp add: valid_input_def scenario_series_def column0_def)
  have n: "int (length (rows scenario_series)) < 5 * 10"
    by (simp add: scenario_series_def)
  have b: "static_bins (rows scenario_series) 5
             = [[[1, 5], [2, 1], [3, 9]], [[4, 2], [5, 3], [6, 8]], [[7, 1], [8, 4]]]"
    by code_simp
  have r: "lttb binary64_arith scenario_series 5
             = Inr \<lparr>ncols = 2, rows = [[0, 0], [3, 9], [4, 2], [8, 4], [9, 0]]\<rparr>"
    by code_simp
  show ?thesis
    using ltd_without_refinement [OF v n, of linregress_stderr binary64_arith] v b r by simp
qed

section \<open>Facts about the primitives\<close>

subsection \<open>Splitting into sections\<close>

lemma length_split_sizes: "length (split_sizes ns xs) = length ns"
  by (induction ns arbitrary: xs) auto

lemma concat_split_sizes: "concat (split_sizes ns xs) = take (sum_list ns) xs"
  by (induction ns arbitrary: xs) (auto simp: take_add)

lemma map_length_split_sizes:
  "sum_list ns \<le> length xs \<Longrightarrow> map length (split_sizes ns xs) = ns"
  by (induction ns arbitrary: xs) auto

lemma set_split_sizes: "b \<in> set (split_sizes ns xs) \<Longrightarrow> set b \<subseteq> set xs"
proof (induction ns arbitrary: xs)
  case Nil
  then show ?case by simp
next
  case (Cons n ns)
  then show ?case
    by (auto dest: in_set_takeD in_set_dropD)
qed

lemma array_split_sizes_sum:
  "0 < k \<Longrightarrow>
   sum_list (replicate (n mod k) (n div k + 1) @ replicate (k - n mod k) (n div k)) = n"
proof -
  assume k: "0 < k"
  have "n mod k \<le> k" using k by (simp add: less_imp_le)
  then have "n mod k * (n div k + 1) + (k - n mod k) * (n div k) = k * (n div k) + n mod k"
    by (simp add: algebra_simps diff_mult_distrib)
  then show ?thesis
    by (simp add: sum_list_replicate)
qed

lemma length_array_split: "0 < k \<Longrightarrow> length (array_split xs k) = k"
  by (simp add: array_split_def Let_def length_split_sizes less_imp_le)

lemma concat_array_split: "0 < k \<Longrightarrow> concat (array_split xs k) = xs"
  using array_split_sizes_sum [of k "length xs"]
  by (simp add: array_split_def Let_def concat_split_sizes)

lemma map_length_array_split:
  "0 < k \<Longrightarrow> map length (array_split xs k) =
     replicate (length xs mod k) (length xs div k + 1) @
     replicate (k - length xs mod k) (length xs div k)"
  unfolding array_split_def Let_def
  using array_split_sizes_sum [of k "length xs"]
  by (intro map_length_split_sizes) simp

lemma array_split_nonempty:
  assumes "0 < k" and "k \<le> length xs" and "b \<in> set (array_split xs k)"
  shows "b \<noteq> []"
proof -
  have "1 \<le> length xs div k"
    using assms(1,2) by (simp add: div_greater_zero_iff Suc_leI)
  moreover have "length b \<in> set (map length (array_split xs k))"
    using assms(3) by simp
  ultimately have "1 \<le> length b"
    unfolding map_length_array_split [OF assms(1)] by auto
  then show ?thesis by auto
qed

lemma array_split_subset: "b \<in> set (array_split xs k) \<Longrightarrow> set b \<subseteq> set xs"
  unfolding array_split_def Let_def by (rule set_split_sizes)

subsection \<open>First positions of extreme entries\<close>

lemma index_of_less: "v \<in> set xs \<Longrightarrow> index_of v xs < length xs"
  by (induction xs) auto

lemma nth_index_of: "v \<in> set xs \<Longrightarrow> xs ! index_of v xs = v"
  by (induction xs) auto

lemma index_of_first: "j < index_of v xs \<Longrightarrow> xs ! j \<noteq> v"
proof (induction xs arbitrary: j)
  case Nil
  then show ?case by simp
next
  case (Cons x xs)
  then show ?case by (cases j) (auto split: if_splits)
qed

lemma argmax_less: "xs \<noteq> [] \<Longrightarrow> argmax xs < length xs"
  by (simp add: argmax_def index_of_less)

lemma nth_argmax: "xs \<noteq> [] \<Longrightarrow> xs ! argmax xs = Max (set xs)"
  by (simp add: argmax_def nth_index_of)

lemma argmax_greatest: "j < length xs \<Longrightarrow> xs ! j \<le> xs ! argmax xs"
  by (cases "xs = []") (simp_all add: nth_argmax)

lemma argmax_first:
  assumes "j < argmax xs" shows "xs ! j < xs ! argmax xs"
proof -
  have ne: "xs \<noteq> []" using assms by (auto simp: argmax_def)
  have j: "j < length xs" using assms argmax_less [OF ne] by simp
  have "xs ! j \<noteq> Max (set xs)"
    using assms by (simp add: argmax_def index_of_first)
  moreover have "xs ! j \<le> Max (set xs)" using j by simp
  ultimately show ?thesis by (simp add: nth_argmax ne)
qed

lemma argmin_less: "xs \<noteq> [] \<Longrightarrow> argmin xs < length xs"
  by (simp add: argmin_def index_of_less)

lemma nth_argmin: "xs \<noteq> [] \<Longrightarrow> xs ! argmin xs = Min (set xs)"
  by (simp add: argmin_def nth_index_of)

subsection \<open>The arg-maximum of computed values\<close>

lemma fle_not_nan: "fle a b \<Longrightarrow> a \<noteq> NaN \<and> b \<noteq> NaN"
  by (cases a; cases b) simp_all

lemma fle_refl: "a \<noteq> NaN \<Longrightarrow> fle a a"
  by (cases a) simp_all

lemma fle_trans: "fle a b \<Longrightarrow> fle b c \<Longrightarrow> fle a c"
  by (cases a; cases b; cases c) simp_all

lemma fle_total: "a \<noteq> NaN \<Longrightarrow> b \<noteq> NaN \<Longrightarrow> fle a b \<or> fle b a"
  by (cases a; cases b) auto

lemma np_le_Finite [simp]: "np_le (Finite x) (Finite y) \<longleftrightarrow> x \<le> y"
  by (simp add: np_le_def)

text \<open>The loop of \<^verbatim>\<open>np.argmax\<close>, entered after the entries \<open>pre\<close> with the running
  maximum \<open>mp\<close> at position \<open>max_ind\<close>: it ends at a position that \<open>np_le\<close> ranks
  highest, and at the first such position.\<close>

lemma argmax_loop_first_greatest:
  assumes "max_ind < length pre" and "pre ! max_ind = mp" and "mp \<noteq> NaN"
    and "\<forall>j<length pre. fle (pre ! j) mp"
    and "\<forall>j<max_ind. \<not> fle mp (pre ! j)"
  shows "argmax_loop mp max_ind (length pre) xs < length (pre @ xs) \<and>
         (\<forall>j<length (pre @ xs).
            np_le ((pre @ xs) ! j) ((pre @ xs) ! argmax_loop mp max_ind (length pre) xs)) \<and>
         (\<forall>j<argmax_loop mp max_ind (length pre) xs.
            \<not> np_le ((pre @ xs) ! argmax_loop mp max_ind (length pre) xs) ((pre @ xs) ! j))"
  using assms
proof (induction xs arbitrary: pre mp max_ind)
  case Nil
  have "pre ! j \<noteq> NaN" if "j < length pre" for j
    using Nil(4) that fle_not_nan by blast
  with Nil show ?case
    by (simp add: np_le_def)
next
  case (Cons x xs)
  have app: "pre @ x # xs = (pre @ [x]) @ xs" by simp
  have len: "Suc (length pre) = length (pre @ [x])" by simp
  show ?case
  proof (cases "fle x mp")
    case True
    have "argmax_loop mp max_ind (length (pre @ [x])) xs < length ((pre @ [x]) @ xs) \<and>
         (\<forall>j<length ((pre @ [x]) @ xs).
            np_le (((pre @ [x]) @ xs) ! j)
              (((pre @ [x]) @ xs) ! argmax_loop mp max_ind (length (pre @ [x])) xs)) \<and>
         (\<forall>j<argmax_loop mp max_ind (length (pre @ [x])) xs.
            \<not> np_le (((pre @ [x]) @ xs) ! argmax_loop mp max_ind (length (pre @ [x])) xs)
                (((pre @ [x]) @ xs) ! j))"
    proof (rule Cons.IH)
      show "max_ind < length (pre @ [x])" using Cons.prems(1) by simp
      show "(pre @ [x]) ! max_ind = mp" using Cons.prems(1,2) by (simp add: nth_append)
      show "mp \<noteq> NaN" by (rule Cons.prems(3))
      show "\<forall>j<length (pre @ [x]). fle ((pre @ [x]) ! j) mp"
        using Cons.prems(4) True by (auto simp: nth_append less_Suc_eq)
      show "\<forall>j<max_ind. \<not> fle mp ((pre @ [x]) ! j)"
        using Cons.prems(1,5) by (auto simp: nth_append)
    qed
    with True show ?thesis
      unfolding app by (simp del: append_assoc)
  next
    case False
    note greater = this
    show ?thesis
    proof (cases "x = NaN")
      case True
      have none: "pre ! j \<noteq> NaN" if "j < length pre" for j
        using Cons.prems(4) that fle_not_nan by blast
      have "\<not> np_le NaN ((pre @ NaN # xs) ! j)" if "j < length pre" for j
        using none [OF that] that by (simp add: np_le_def nth_append)
      with True greater show ?thesis
        by (simp add: np_le_def)
    next
      case False
      have below: "fle mp x"
        using fle_total [OF False Cons.prems(3)] greater by blast
      have "argmax_loop x (length pre) (length (pre @ [x])) xs < length ((pre @ [x]) @ xs) \<and>
         (\<forall>j<length ((pre @ [x]) @ xs).
            np_le (((pre @ [x]) @ xs) ! j)
              (((pre @ [x]) @ xs) ! argmax_loop x (length pre) (length (pre @ [x])) xs)) \<and>
         (\<forall>j<argmax_loop x (length pre) (length (pre @ [x])) xs.
            \<not> np_le (((pre @ [x]) @ xs) ! argmax_loop x (length pre) (length (pre @ [x])) xs)
                (((pre @ [x]) @ xs) ! j))"
      proof (rule Cons.IH)
        show "length pre < length (pre @ [x])" by simp
        show "(pre @ [x]) ! length pre = x" by simp
        show "x \<noteq> NaN" by (rule False)
        show "\<forall>j<length (pre @ [x]). fle ((pre @ [x]) ! j) x"
          using Cons.prems(4) below fle_trans fle_refl [OF False]
          by (auto simp: nth_append less_Suc_eq)
        show "\<forall>j<length pre. \<not> fle x ((pre @ [x]) ! j)"
          using Cons.prems(4) greater fle_trans by (auto simp: nth_append)
      qed
      with False greater show ?thesis
        unfolding app by (simp del: append_assoc)
    qed
  qed
qed

lemma np_argmax_first_greatest:
  assumes "xs \<noteq> []"
  shows "np_argmax xs < length xs \<and>
         (\<forall>j<length xs. np_le (xs ! j) (xs ! np_argmax xs)) \<and>
         (\<forall>j<np_argmax xs. \<not> np_le (xs ! np_argmax xs) (xs ! j))"
proof -
  from assms obtain x rest where xs: "xs = x # rest" by (cases xs) auto
  show ?thesis
  proof (cases "x = NaN")
    case True
    with xs show ?thesis by (simp add: np_argmax_def np_le_def)
  next
    case False
    from argmax_loop_first_greatest [of 0 "[x]" x rest] False fle_refl [OF False]
    show ?thesis
      unfolding xs np_argmax_def by simp
  qed
qed

lemma np_argmax_less: "xs \<noteq> [] \<Longrightarrow> np_argmax xs < length xs"
  using np_argmax_first_greatest by blast

subsection \<open>The extreme rows\<close>

lemma max_point_of_in_set: "data \<noteq> [] \<Longrightarrow> max_point_of data \<in> set data"
  using argmax_less [of "map (\<lambda>r. r ! 1) data"] by (simp add: max_point_of_def)

lemma min_point_of_in_set: "data \<noteq> [] \<Longrightarrow> min_point_of data \<in> set data"
  using argmin_less [of "map (\<lambda>r. r ! 1) data"] by (simp add: min_point_of_def)

section \<open>The selection loop\<close>

lemma select_loop_append:
  "select_loop ar d nb bins mx mn (is @ js) out =
     (case select_loop ar d nb bins mx mn is out of
        Inl e \<Rightarrow> Inl e
      | Inr out' \<Rightarrow> select_loop ar d nb bins mx mn js out')"
  by (induction "is" arbitrary: out) (auto split: sum.splits)

lemma choose_point_cong:
  "length out1 = length out2 \<Longrightarrow> out1 ! i = out2 ! i \<Longrightarrow>
   choose_point ar d nb bins mx mn i out1 = choose_point ar d nb bins mx mn i out2"
  by (simp add: choose_point_def Let_def split: sum.splits)

lemma select_stepE:
  assumes "select_step ar d nb bins mx mn i out = Inr out'"
  obtains p where "choose_point ar d nb bins mx mn i out = Inr p"
    and "Suc i < length out" and "out' = out[Suc i := p]"
  using assms by (auto simp: select_step_def split: sum.splits if_splits)

lemma choose_point_in:
  assumes "choose_point ar d nb bins mx mn i out = Inr p"
  shows "p = mx \<or> p = mn \<or> p \<in> set (bins ! i)"
proof -
  have "bins ! i \<noteq> [] \<Longrightarrow>
        bins ! i ! np_argmax (area_of_triangles ar (bins ! i) q r) \<in> set (bins ! i)" for q r
    using np_argmax_less [of "area_of_triangles ar (bins ! i) q r"]
    by (simp add: area_of_triangles_def)
  then show ?thesis
    using assms
    by (auto simp: choose_point_def Let_def split: if_splits sum.splits)
qed

lemma select_loop_upt:
  assumes "select_loop ar d nb bins mx mn [0..<n] out = Inr out'"
  shows "length out' = length out \<and>
         (\<forall>k<length out. k = 0 \<or> n < k \<longrightarrow> out' ! k = out ! k) \<and>
         (\<forall>i<n. Suc i < length out \<and> choose_point ar d nb bins mx mn i out' = Inr (out' ! Suc i))"
  using assms
proof (induction n arbitrary: out')
  case 0
  then show ?case by simp
next
  case (Suc n)
  from Suc.prems obtain out1 where
    l: "select_loop ar d nb bins mx mn [0..<n] out = Inr out1" and
    s: "select_step ar d nb bins mx mn n out1 = Inr out'"
    by (auto simp: select_loop_append split: sum.splits)
  from s obtain p where
    c: "choose_point ar d nb bins mx mn n out1 = Inr p" and
    b: "Suc n < length out1" and o: "out' = out1[Suc n := p]"
    by (rule select_stepE)
  note ih = Suc.IH [OF l]
  have len: "length out' = length out"
    using ih o by simp
  have frame: "\<forall>k<length out. k = 0 \<or> Suc n < k \<longrightarrow> out' ! k = out ! k"
    using ih o by auto
  have chosen: "Suc i < length out \<and> choose_point ar d nb bins mx mn i out' = Inr (out' ! Suc i)"
    if "i < Suc n" for i
  proof (cases "i = n")
    case True
    have "choose_point ar d nb bins mx mn n out' = choose_point ar d nb bins mx mn n out1"
      using o by (intro choose_point_cong) simp_all
    with c b o True ih show ?thesis by simp
  next
    case False
    with that have i: "i < n" by simp
    have "choose_point ar d nb bins mx mn i out' = choose_point ar d nb bins mx mn i out1"
      using o i by (intro choose_point_cong) simp_all
    with ih i o show ?thesis by simp
  qed
  from len frame chosen show ?case by blast
qed

lemma select_loop_succeeds:
  assumes "n < length out" and "n \<le> length bins"
    and "\<forall>i<n. bins ! i \<noteq> []"
    and "\<forall>i<n. int i < nb - 1 \<longrightarrow> Suc i < length bins"
  shows "\<exists>out'. select_loop ar d nb bins mx mn [0..<n] out = Inr out'"
  using assms
proof (induction n)
  case 0
  then show ?case by simp
next
  case (Suc n)
  then obtain out1 where l: "select_loop ar d nb bins mx mn [0..<n] out = Inr out1"
    by auto
  have len: "length out1 = length out"
    using select_loop_upt [OF l] by simp
  have "\<exists>p. choose_point ar d nb bins mx mn n out1 = Inr p"
    using Suc.prems len
    by (auto simp: choose_point_def next_bin_of_def Let_def)
  then obtain p where "choose_point ar d nb bins mx mn n out1 = Inr p" ..
  then have "select_step ar d nb bins mx mn n out1 = Inr (out1[Suc n := p])"
    using Suc.prems(1) len by (simp add: select_step_def)
  with l show ?case
    by (simp add: select_loop_append)
qed

lemma select_loop_rows:
  assumes "select_loop ar d nb bins mx mn is out = Inr out'"
    and "mx \<in> S" and "mn \<in> S" and "\<forall>i\<in>set is. set (bins ! i) \<subseteq> S"
  shows "length out' = length out \<and>
         (\<forall>k<length out. out' ! k \<in> S \<or> (out' ! k = out ! k \<and> k \<notin> Suc ` set is))"
  using assms
proof (induction "is" arbitrary: out)
  case Nil
  then show ?case by simp
next
  case (Cons i "is")
  from Cons.prems(1) obtain out1 where
    s: "select_step ar d nb bins mx mn i out = Inr out1" and
    l: "select_loop ar d nb bins mx mn is out1 = Inr out'"
    by (auto split: sum.splits)
  from s obtain p where
    c: "choose_point ar d nb bins mx mn i out = Inr p" and
    b: "Suc i < length out" and o: "out1 = out[Suc i := p]"
    by (rule select_stepE)
  have p: "p \<in> S"
    using choose_point_in [OF c] Cons.prems(2-4) by auto
  have ih: "length out' = length out1 \<and>
         (\<forall>k<length out1. out' ! k \<in> S \<or> (out' ! k = out1 ! k \<and> k \<notin> Suc ` set is))"
    using Cons.IH [OF l] Cons.prems(2-4) by simp
  show ?case
  proof (intro conjI allI impI)
    show "length out' = length out" using ih o by simp
  next
    fix k assume k: "k < length out"
    then have "out' ! k \<in> S \<or> (out' ! k = out1 ! k \<and> k \<notin> Suc ` set is)"
      using ih o by simp
    then show "out' ! k \<in> S \<or> (out' ! k = out ! k \<and> k \<notin> Suc ` set (i # is))"
      using p o k by (cases "k = Suc i") auto
  qed
qed

section \<open>The static variant returns\<close>

lemma length_interior: "length (interior xs) = length xs - 2"
  by (simp add: interior_def)

lemma set_interior: "set (interior xs) \<subseteq> set xs"
  by (auto simp: interior_def dest: in_set_dropD in_set_takeD)

lemma nth_interior: "k < length xs - 2 \<Longrightarrow> interior xs ! k = xs ! Suc k"
  by (simp add: interior_def)

lemma length_initial_out: "length (initial_out data n_out) = nat n_out"
  by (simp add: initial_out_def)

lemma initial_out_first: "2 \<le> n_out \<Longrightarrow> initial_out data n_out ! 0 = data ! 0"
  by (simp add: initial_out_def nth_list_update)

lemma initial_out_last:
  "1 \<le> n_out \<Longrightarrow> initial_out data n_out ! (nat n_out - 1) = data ! (length data - 1)"
  by (simp add: initial_out_def)

lemma length_static_bins: "3 \<le> n_out \<Longrightarrow> length (static_bins data n_out) = nat (n_out - 2)"
  by (simp add: static_bins_def length_array_split)

lemma concat_static_bins: "3 \<le> n_out \<Longrightarrow> concat (static_bins data n_out) = interior data"
  by (simp add: static_bins_def concat_array_split)

lemma static_bins_nonempty:
  assumes "3 \<le> n_out" and "n_out \<le> int (length data)" and "b \<in> set (static_bins data n_out)"
  shows "b \<noteq> []"
  using assms(3) unfolding static_bins_def
  by (rule array_split_nonempty [rotated 2]) (use assms(1,2) in \<open>simp_all add: length_interior\<close>)

text \<open>The static variant on a valid input that is longer than \<open>n_out\<close>: it returns, and
  every row of the result is described by the pass that stored it.\<close>

lemma lttb_result:
  assumes v: "valid_input data n_out" and lt: "n_out < int (length (rows data))"
  obtains out where "lttb ar data n_out = Inr \<lparr>ncols = 2, rows = out\<rparr>"
    and "length out = nat n_out"
    and "out ! 0 = rows data ! 0"
    and "out ! (nat n_out - 1) = rows data ! (length (rows data) - 1)"
    and "\<forall>i<nat (n_out - 2).
           choose_point ar (rows data) (n_out - 2) (static_bins (rows data) n_out)
             (max_point_of (rows data)) (min_point_of (rows data)) i out = Inr (out ! Suc i)"
proof -
  let ?d = "rows data" and ?bins = "static_bins (rows data) n_out"
  let ?out0 = "initial_out (rows data) n_out"
  from v have n3: "3 \<le> n_out" and le: "n_out \<le> int (length ?d)"
    by (simp_all add: valid_input_def)
  have lb: "length ?bins = nat (n_out - 2)"
    using n3 by (rule length_static_bins)
  have ne: "\<forall>i<length ?bins. ?bins ! i \<noteq> []"
    using static_bins_nonempty [OF n3 le] by simp
  have "\<exists>out. select_loop ar ?d (n_out - 2) ?bins (max_point_of ?d) (min_point_of ?d)
                 [0..<length ?bins] ?out0 = Inr out"
    using n3 lb ne by (intro select_loop_succeeds) (auto simp: length_initial_out)
  then obtain out where
    l: "select_loop ar ?d (n_out - 2) ?bins (max_point_of ?d) (min_point_of ?d)
          [0..<length ?bins] ?out0 = Inr out" ..
  note u = select_loop_upt [OF l]
  have r: "lttb ar data n_out = Inr \<lparr>ncols = 2, rows = out\<rparr>"
    using v lt l
    by (simp add: lttb_def valid_input_def not_sorted_iff select_points_def static_bins_def)
  have len: "length out = nat n_out"
    using u by (simp add: length_initial_out)
  have "0 < length ?out0"
    using n3 by (simp add: length_initial_out)
  with u have "out ! 0 = ?out0 ! 0" by blast
  then have first: "out ! 0 = ?d ! 0"
    using n3 by (simp add: initial_out_first)
  have "nat n_out - 1 < length ?out0" and "length ?bins < nat n_out - 1"
    using n3 lb by (simp_all add: length_initial_out)
  with u have "out ! (nat n_out - 1) = ?out0 ! (nat n_out - 1)" by blast
  then have last: "out ! (nat n_out - 1) = ?d ! (length ?d - 1)"
    using n3 initial_out_last [of n_out ?d] by simp
  have ch: "\<forall>i<nat (n_out - 2).
           choose_point ar ?d (n_out - 2) ?bins (max_point_of ?d) (min_point_of ?d) i out
             = Inr (out ! Suc i)"
    using u lb by simp
  from r len first last ch show thesis by (rule that)
qed

lemma lttb_shape:
  assumes "valid_input data n_out"
  shows "\<exists>out. lttb ar data n_out = Inr out \<and> ncols out = 2 \<and> length (rows out) = nat n_out \<and>
           rows out ! 0 = rows data ! 0 \<and>
           rows out ! (nat n_out - 1) = rows data ! (length (rows data) - 1)"
proof (cases "n_out = int (length (rows data))")
  case True
  with assms show ?thesis
    by (simp add: lttb_def valid_input_def not_sorted_iff)
next
  case False
  with assms have "n_out < int (length (rows data))"
    by (simp add: valid_input_def)
  from lttb_result [OF assms this] show ?thesis
    by (metis ndarray.select_convs(1,2))
qed

section \<open>The refinement loop\<close>

lemma length_sse_loop: "sse_loop stderr d bins is = Inr sse \<Longrightarrow> length sse = length is"
  by (induction "is" arbitrary: sse) (auto split: sum.splits)

lemma set_argsort: "set (argsort xs) = {0..<length xs}"
  by (simp add: argsort_def)

lemma length_argsort: "length (argsort xs) = length xs"
  by (simp add: argsort_def)

lemma find_max_loop_Some:
  "find_max_loop bins ks = Inr (Some k) \<Longrightarrow>
   k \<in> set ks \<and> k < length bins \<and> 2 \<le> length (bins ! k)"
  by (induction ks) (auto split: if_splits)

lemma find_max_loop_None:
  "find_max_loop bins ks = Inr None \<Longrightarrow> j \<in> set ks \<Longrightarrow> length (bins ! j) < 2"
  by (induction ks) (auto split: if_splits)

lemma find_max_bin_less:
  assumes "find_max_bin bins sse = Inr mx"
  shows "mx < length sse"
proof -
  have "mx \<in> set (argsort sse)"
    using assms
    by (auto simp: find_max_bin_def Let_def split: sum.splits option.splits if_splits
             dest: find_max_loop_Some)
  then show ?thesis by (simp add: set_argsort)
qed

lemma find_min_bin_less:
  assumes "find_min_bin sse = Inr mn"
  shows "Suc mn < length sse"
proof -
  let ?sp = "map (\<lambda>i. sse ! i + sse ! (i + 1)) [0..<length sse - 1]"
  from assms have ne: "?sp \<noteq> []" and mn: "mn = index_of (Min (set ?sp)) ?sp"
    by (auto simp: find_min_bin_def Let_def split: if_splits)
  have "Min (set ?sp) \<in> set ?sp"
    using ne by (intro Min_in) simp_all
  then have "mn < length ?sp"
    unfolding mn by (rule index_of_less)
  then show ?thesis by simp
qed

lemma resize_loop_append:
  "resize_loop bins mx mn (is @ js) acc =
     (case resize_loop bins mx mn is acc of
        Inl e \<Rightarrow> Inl e
      | Inr acc' \<Rightarrow> resize_loop bins mx mn js acc')"
  by (induction "is" arbitrary: acc) auto

lemma resize_loop_length:
  assumes "resize_loop bins mx mn [0..<n] acc = Inr r"
  shows "length r + (if Suc mn < n \<and> Suc mn \<noteq> mx then 1 else 0)
           = length acc + n + (if mx < n then 1 else 0)"
  using assms
proof (induction n arbitrary: r)
  case 0
  then show ?case by simp
next
  case (Suc n)
  from Suc.prems obtain r1 where
    p: "resize_loop bins mx mn [0..<n] acc = Inr r1" and
    s: "resize_loop bins mx mn [n] r1 = Inr r"
    by (auto simp: resize_loop_append split: sum.splits)
  from s have "length r = length r1 + (if n = mx then 2 else if n = Suc mn then 0 else 1)"
    by (auto simp: length_array_split split: if_splits)
  with Suc.IH [OF p] show ?case
    by (auto split: if_splits)
qed

lemma resize_loop_subset:
  assumes "resize_loop bins mx mn is acc = Inr r"
    and "\<forall>b\<in>set acc. set b \<subseteq> S" and "\<forall>b\<in>set bins. set b \<subseteq> S"
    and "\<forall>i\<in>set is. i < length bins"
  shows "\<forall>b\<in>set r. set b \<subseteq> S"
  using assms
proof (induction "is" arbitrary: acc)
  case Nil
  then show ?case by simp
next
  case (Cons i "is")
  have bi: "set (bins ! i) \<subseteq> S"
    using Cons.prems(3,4) by simp
  have sp: "\<forall>b\<in>set (array_split (bins ! i) 2). set b \<subseteq> S"
    using bi array_split_subset by blast
  have nxt: "Suc i < length bins \<Longrightarrow> set (bins ! Suc i) \<subseteq> S"
    using Cons.prems(3) by simp
  have "\<exists>acc'. resize_loop bins mx mn is acc' = Inr r \<and> (\<forall>b\<in>set acc'. set b \<subseteq> S)"
  proof (cases "i = mx")
    case True
    with Cons.prems(1,2) sp show ?thesis
      by (intro exI [of _ "acc @ array_split (bins ! i) 2"]) auto
  next
    case False
    note not_max = this
    show ?thesis
    proof (cases "i = mn")
      case True
      with not_max Cons.prems(1,2) bi nxt show ?thesis
        by (intro exI [of _ "acc @ [bins ! i @ bins ! (i + 1)]"]) (auto split: if_splits)
    next
      case False
      note not_min = this
      show ?thesis
      proof (cases "i = mn + 1")
        case True
        with not_max not_min Cons.prems(1,2) show ?thesis
          by (intro exI [of _ acc]) auto
      next
        case False
        with not_max not_min Cons.prems(1,2) bi show ?thesis
          by (intro exI [of _ "acc @ [bins ! i]"]) auto
      qed
    qed
  qed
  then obtain acc' where "resize_loop bins mx mn is acc' = Inr r"
    and "\<forall>b\<in>set acc'. set b \<subseteq> S"
    by blast
  then show ?case
    using Cons.prems(3,4) by (intro Cons.IH) simp_all
qed

section \<open>What refinement keeps\<close>

lemma resize_bins_keeps:
  assumes r: "resize_bins bins sse = Inr bins'" and len: "length sse = length bins"
    and sub: "\<forall>b\<in>set bins. set b \<subseteq> S"
  shows "(\<forall>b\<in>set bins'. set b \<subseteq> S) \<and> length bins \<le> length bins'"
proof -
  from r obtain mx mn where
    mx: "find_max_bin bins sse = Inr mx" and mn: "find_min_bin sse = Inr mn" and
    l: "resize_loop bins mx mn [0..<length bins] [] = Inr bins'"
    by (auto simp: resize_bins_def split: sum.splits)
  have "mx < length bins"
    using find_max_bin_less [OF mx] len by simp
  with resize_loop_length [OF l] have "length bins \<le> length bins'"
    by (simp split: if_splits)
  moreover have "\<forall>b\<in>set bins'. set b \<subseteq> S"
    by (rule resize_loop_subset [OF l _ sub]) simp_all
  ultimately show ?thesis by simp
qed

lemma refine_keeps:
  assumes "refine stderr d k bins = Inr bins'" and "\<forall>b\<in>set bins. set b \<subseteq> S"
  shows "(\<forall>b\<in>set bins'. set b \<subseteq> S) \<and> length bins \<le> length bins'"
  using assms
proof (induction k arbitrary: bins)
  case 0
  then show ?case by simp
next
  case (Suc k)
  from Suc.prems(1) obtain sse bins1 where
    s: "sse_loop stderr d bins [0..<length bins] = Inr sse" and
    r: "resize_bins bins sse = Inr bins1" and
    f: "refine stderr d k bins1 = Inr bins'"
    by (auto split: sum.splits)
  have "length sse = length bins"
    using length_sse_loop [OF s] by simp
  from resize_bins_keeps [OF r this Suc.prems(2)]
  have k1: "\<forall>b\<in>set bins1. set b \<subseteq> S" and l1: "length bins \<le> length bins1"
    by simp_all
  from Suc.IH [OF f k1] l1 show ?case by simp
qed

lemma split_data_keeps:
  assumes "split_data stderr d n_out = Inr bins"
  shows "(\<forall>b\<in>set bins. set b \<subseteq> set d) \<and> nat (n_out - 2) \<le> length bins"
proof -
  from assms have n: "3 \<le> n_out" and
    r: "refine stderr d (iteration_num d n_out) (static_bins d n_out) = Inr bins"
    by (auto simp: split_data_def static_bins_def split: if_splits)
  have "\<forall>b\<in>set (static_bins d n_out). set b \<subseteq> set d"
  proof
    fix b assume "b \<in> set (static_bins d n_out)"
    then have "set b \<subseteq> set (interior d)"
      unfolding static_bins_def by (rule array_split_subset)
    also have "\<dots> \<subseteq> set d" by (rule set_interior)
    finally show "set b \<subseteq> set d" .
  qed
  from refine_keeps [OF r this] length_static_bins [OF n] show ?thesis by simp
qed

lemma select_points_rows:
  assumes s: "select_points ar d n_out bins = Inr out" and n: "3 \<le> n_out"
    and d: "d \<noteq> []"
    and sub: "\<forall>b\<in>set bins. set b \<subseteq> set d" and len: "nat (n_out - 2) \<le> length bins"
  shows "set (rows out) \<subseteq> set d"
proof -
  let ?out0 = "initial_out d n_out"
  from s obtain out' where
    l: "select_loop ar d (n_out - 2) bins (max_point_of d) (min_point_of d)
          [0..<length bins] ?out0 = Inr out'" and o: "rows out = out'"
    by (auto simp: select_points_def split: sum.splits)
  have "\<forall>i\<in>set [0..<length bins]. set (bins ! i) \<subseteq> set d"
    using sub by simp
  from select_loop_rows [OF l max_point_of_in_set [OF d] min_point_of_in_set [OF d] this]
  have len': "length out' = nat n_out" and
    k: "\<And>k. k < nat n_out \<Longrightarrow> out' ! k \<in> set d \<or>
          (out' ! k = ?out0 ! k \<and> k \<notin> Suc ` {0..<length bins})"
    by (simp_all add: length_initial_out)
  have "out' ! k \<in> set d" if kn: "k < nat n_out" for k
  proof (cases "out' ! k \<in> set d")
    case True
    then show ?thesis .
  next
    case False
    with k [OF kn] have e: "out' ! k = ?out0 ! k" and nk: "k \<notin> Suc ` {0..<length bins}"
      by simp_all
    from nk have "k = 0 \<or> length bins < k"
      by (cases k) auto
    with len kn have "k = 0 \<or> k = nat n_out - 1" by auto
    moreover have "d ! 0 \<in> set d" and "d ! (length d - 1) \<in> set d"
      using d by simp_all
    moreover have "?out0 ! 0 = d ! 0" and "?out0 ! (nat n_out - 1) = d ! (length d - 1)"
      using n initial_out_first [of n_out d] initial_out_last [of n_out d] by simp_all
    ultimately have "?out0 ! k \<in> set d"
      by metis
    with e show ?thesis by simp
  qed
  then show ?thesis
    unfolding o using len' by (auto simp: in_set_conv_nth)
qed

section \<open>Rows of the output\<close>

text \<open>Claim C10. On a valid input, whenever either variant returns an array, every row of
  that array is a row of the input: the two end rows are copied from the series, and every
  other row is the stored maximum or minimum row or a row of a bucket, and the buckets
  hold rows of the series only (also after refinement, which never lowers their number,
  so that no row of zeros is left).\<close>

theorem output_rows_are_input_rows:
  assumes "valid_input data n_out"
    and "lttb ar data n_out = Inr out \<or> ltd ar stderr data n_out = Inr out"
  shows "set (rows out) \<subseteq> set (rows data)"
proof (cases "n_out = int (length (rows data))")
  case True
  with assms have "out = data"
    by (auto simp: lttb_def ltd_def valid_input_def not_sorted_iff)
  then show ?thesis by simp
next
  case False
  with assms(1) have n: "3 \<le> n_out" and lt: "n_out < int (length (rows data))"
    and c: "ncols data = 2" and s: "\<not> not_sorted_on_first_column data"
    by (simp_all add: valid_input_def not_sorted_iff)
  from n lt have d: "rows data \<noteq> []" by auto
  from assms(2) show ?thesis
  proof
    assume "lttb ar data n_out = Inr out"
    then have sp: "select_points ar (rows data) n_out (static_bins (rows data) n_out) = Inr out"
      using n lt c s by (simp add: lttb_def static_bins_def)
    have k: "\<forall>b\<in>set (static_bins (rows data) n_out). set b \<subseteq> set (rows data)"
    proof
      fix b assume "b \<in> set (static_bins (rows data) n_out)"
      then have "set b \<subseteq> set (interior (rows data))"
        unfolding static_bins_def by (rule array_split_subset)
      also have "\<dots> \<subseteq> set (rows data)" by (rule set_interior)
      finally show "set b \<subseteq> set (rows data)" .
    qed
    show ?thesis
      by (rule select_points_rows [OF sp n d k]) (simp add: length_static_bins [OF n])
  next
    assume "ltd ar stderr data n_out = Inr out"
    then obtain bins where sd: "split_data stderr (rows data) n_out = Inr bins"
      and sp: "select_points ar (rows data) n_out bins = Inr out"
      using n lt c s by (auto simp: ltd_def split: sum.splits)
    from split_data_keeps [OF sd] show ?thesis
      by (intro select_points_rows [OF sp n d]) simp_all
  qed
qed

text \<open>The ten-point series of the specification with \<open>n_out = 5\<close>: both variants return five
  of its rows.\<close>

theorem output_rows_are_input_rows_witness:
  "valid_input scenario_series 5 \<and>
   lttb binary64_arith scenario_series 5 = Inr \<lparr>ncols = 2, rows = [[0, 0], [3, 9], [4, 2], [8, 4], [9, 0]]\<rparr> \<and>
   ltd binary64_arith linregress_stderr scenario_series 5
     = Inr \<lparr>ncols = 2, rows = [[0, 0], [3, 9], [4, 2], [8, 4], [9, 0]]\<rparr> \<and>
   set [[0, 0], [3, 9], [4, 2], [8, 4], [9, 0]] \<subseteq> set (rows scenario_series)"
proof -
  let ?out = "\<lparr>ncols = 2, rows = [[0, 0], [3, 9], [4, 2], [8, 4], [9, 0 :: real]]\<rparr>"
  have v: "valid_input scenario_series 5"
    by (simp add: valid_input_def scenario_series_def column0_def)
  have r: "lttb binary64_arith scenario_series 5 = Inr ?out"
    by code_simp
  have "int (length (rows scenario_series)) < 5 * 10"
    by (simp add: scenario_series_def)
  then have r': "ltd binary64_arith linregress_stderr scenario_series 5 = Inr ?out"
    using r by (simp add: ltd_eq_lttb_small)
  from output_rows_are_input_rows [OF v disjI1 [OF r]] v r r' show ?thesis
    by simp
qed

lemma sorted_line_series: "sorted (column0 (line_series n))"
proof -
  have "column0 (line_series n) = map real [0..<n]"
    by (simp add: column0_def line_series_def comp_def)
  moreover have "sorted (map real [0..<n])"
    by (simp add: sorted_map sorted_wrt_iff_nth_less)
  ultimately show ?thesis by simp
qed

lemma valid_line_series: "3 \<le> n_out \<Longrightarrow> n_out \<le> int n \<Longrightarrow> valid_input (line_series n) n_out"
  by (simp add: valid_input_def sorted_line_series) (simp add: line_series_def)

text \<open>With \<open>n_out = 3\<close> there is one bucket. As soon as a refinement pass is due (30 rows
  or more), the pass looks for the bucket after bucket 0 and fails.\<close>

lemma ltd_single_bucket:
  assumes "valid_input data 3" and "30 \<le> length (rows data)"
  shows "ltd ar stderr data 3 = Inl IndexError"
proof -
  let ?d = "rows data"
  have "int (length ?d) div 30 \<ge> 1"
    using assms(2) by linarith
  then obtain k where k: "iteration_num ?d 3 = Suc k"
    unfolding iteration_num_def by (cases "nat (int (length ?d) div (3 * 10))") simp_all
  have l: "length (static_bins ?d 3) = 1"
    by (simp add: length_static_bins)
  have "?d \<noteq> []" using assms(2) by auto
  then have "bin_with_neighbours ?d (static_bins ?d 3) 0 = Inl IndexError"
    using l by (simp add: bin_with_neighbours_def)
  then have "refine stderr ?d (Suc k) (static_bins ?d 3) = Inl IndexError"
    using l by simp
  then have "split_data stderr ?d 3 = Inl IndexError"
    using k by (simp add: split_data_def static_bins_def)
  then show ?thesis
    using assms by (simp add: ltd_def valid_input_def not_sorted_iff)
qed

text \<open>Claim C6 (the output has \<open>n_out\<close> rows, the first and the last row of the series
  at its ends) holds for the static variant, by \<open>lttb_shape\<close>. The dynamic variant breaks
  it: on the valid input of the thirty points \<open>(i, i)\<close> with \<open>n_out = 3\<close> it returns no
  array at all, whatever the score function.\<close>

theorem ltd_thirty_rows_three_points:
  "ltd ar stderr (line_series 30) 3 = Inl IndexError"
  by (rule ltd_single_bucket) (simp_all add: valid_line_series, simp add: line_series_def)

section \<open>Which errors can come from where\<close>

lemma choose_point_error:
  "choose_point ar d nb bins mx mn i out = Inl e \<Longrightarrow> \<not> validation_error e"
  by (auto simp: choose_point_def next_bin_of_def validation_error_def Let_def
           split: if_splits sum.splits)

lemma select_step_error:
  "select_step ar d nb bins mx mn i out = Inl e \<Longrightarrow> \<not> validation_error e"
  by (auto simp: select_step_def split: sum.splits if_splits dest: choose_point_error)
     (simp add: validation_error_def)

lemma select_loop_error:
  "select_loop ar d nb bins mx mn is out = Inl e \<Longrightarrow> \<not> validation_error e"
  by (induction "is" arbitrary: out) (auto split: sum.splits dest: select_step_error)

lemma select_points_error:
  "select_points ar d n_out bins = Inl e \<Longrightarrow> \<not> validation_error e"
  by (auto simp: select_points_def split: sum.splits dest: select_loop_error)

lemma bin_with_neighbours_error:
  "bin_with_neighbours d bins i = Inl e \<Longrightarrow> e = IndexError"
  by (auto simp: bin_with_neighbours_def split: if_splits)

lemma sse_loop_error:
  "sse_loop stderr d bins is = Inl e \<Longrightarrow> e = IndexError"
  by (induction "is") (auto split: sum.splits dest: bin_with_neighbours_error)

lemma find_max_loop_error: "find_max_loop bins ks = Inl e \<Longrightarrow> e = IndexError"
  by (induction ks) (auto split: if_splits)

lemma find_max_bin_error:
  "find_max_bin bins sse = Inl e \<Longrightarrow> e = IndexError \<or> e = UnboundLocalError"
  by (auto simp: find_max_bin_def Let_def split: sum.splits option.splits if_splits
           dest: find_max_loop_error)

lemma find_min_bin_error: "find_min_bin sse = Inl e \<Longrightarrow> e = ValueError"
  by (auto simp: find_min_bin_def Let_def split: if_splits)

lemma resize_loop_error: "resize_loop bins mx mn is acc = Inl e \<Longrightarrow> e = IndexError"
  by (induction "is" arbitrary: acc) (auto split: if_splits)

lemma resize_bins_error:
  "resize_bins bins sse = Inl e \<Longrightarrow> \<not> validation_error e"
  by (auto simp: resize_bins_def validation_error_def split: sum.splits
           dest: find_max_bin_error find_min_bin_error resize_loop_error)

lemma refine_error:
  "refine stderr d k bins = Inl e \<Longrightarrow> \<not> validation_error e"
proof (induction k arbitrary: bins)
  case 0
  then show ?case by simp
next
  case (Suc k)
  show ?case
  proof (cases "sse_loop stderr d bins [0..<length bins]")
    case (Inl e')
    with Suc.prems have "e = IndexError"
      by (auto dest: sse_loop_error)
    then show ?thesis by (simp add: validation_error_def)
  next
    case (Inr sse)
    note sse = this
    show ?thesis
    proof (cases "resize_bins bins sse")
      case (Inl e')
      with sse Suc.prems show ?thesis
        by (auto dest: resize_bins_error)
    next
      case (Inr bins')
      with sse Suc.prems have "refine stderr d k bins' = Inl e"
        by simp
      then show ?thesis by (rule Suc.IH)
    qed
  qed
qed

lemma split_data_error:
  "split_data stderr d n_out = Inl e \<Longrightarrow> \<not> validation_error e"
  by (auto simp: split_data_def split: if_splits dest: refine_error)
     (simp_all add: validation_error_def)

text \<open>Claim C8, as stated, fails: the validation compares the first column with its sorted
  copy, and a column with equal neighbours is its own sorted copy. The series
  \<open>(0, 0), (0, 1), (1, 2), (2, 3)\<close> is accepted by both variants.\<close>

theorem equal_x_counterexample:
  "ncols repeated_x = 2 \<and> column0 repeated_x ! 0 = column0 repeated_x ! 1 \<and>
   lttb binary64_arith repeated_x 3 = Inr \<lparr>ncols = 2, rows = [[0, 0], [0, 1], [2, 3]]\<rparr> \<and>
   ltd binary64_arith linregress_stderr repeated_x 3 = Inr \<lparr>ncols = 2, rows = [[0, 0], [0, 1], [2, 3]]\<rparr>"
proof -
  have r: "lttb binary64_arith repeated_x 3 = Inr \<lparr>ncols = 2, rows = [[0, 0], [0, 1], [2, 3]]\<rparr>"
    by code_simp
  have "int (length (rows repeated_x)) < 3 * 10"
    by (simp add: repeated_x_def)
  then have "ltd binary64_arith linregress_stderr repeated_x 3 = lttb binary64_arith repeated_x 3"
    by (rule ltd_eq_lttb_small)
  with r show ?thesis
    by (simp add: repeated_x_def column0_def)
qed

text \<open>Claim C8, amended. The validation enforces that the x column is in ascending order,
  equal neighbours allowed: a series of two columns is refused with \<open>NotSorted\<close> by either
  variant exactly when its x column is not in ascending order.\<close>

theorem not_sorted_exactly_when_unsorted:
  assumes "ncols data = 2"
  shows "(lttb ar data n_out = Inl NotSorted \<longleftrightarrow> \<not> sorted (column0 data)) \<and>
         (ltd ar stderr data n_out = Inl NotSorted \<longleftrightarrow> \<not> sorted (column0 data))"
proof -
  have v: "validation_error NotSorted"
    by (simp add: validation_error_def)
  have "lttb ar data n_out \<noteq> Inl NotSorted" if "sorted (column0 data)"
    using that assms v select_points_error [of ar "rows data" n_out _ NotSorted]
    by (auto simp: lttb_def not_sorted_iff)
  moreover have "ltd ar stderr data n_out \<noteq> Inl NotSorted" if "sorted (column0 data)"
    using that assms v select_points_error [of ar "rows data" n_out _ NotSorted]
      split_data_error [of stderr "rows data" n_out NotSorted]
    by (auto simp: ltd_def not_sorted_iff split: sum.splits)
  moreover have "lttb ar data n_out = Inl NotSorted \<and> ltd ar stderr data n_out = Inl NotSorted"
    if "\<not> sorted (column0 data)"
    using that assms by (simp add: lttb_def ltd_def not_sorted_iff)
  ultimately show ?thesis by blast
qed

text \<open>A series whose x column goes down is refused by both variants; the series with a
  repeated x-value is not.\<close>

theorem not_sorted_exactly_when_unsorted_witness:
  "lttb binary64_arith \<lparr>ncols = 2, rows = [[0, 0], [2, 1], [1, 2], [3, 3]]\<rparr> 3
     = Inl NotSorted \<and>
   ltd binary64_arith linregress_stderr \<lparr>ncols = 2, rows = [[0, 0], [2, 1], [1, 2], [3, 3]]\<rparr> 3
     = Inl NotSorted \<and>
   lttb binary64_arith repeated_x 3 \<noteq> Inl NotSorted \<and>
   ltd binary64_arith linregress_stderr repeated_x 3 \<noteq> Inl NotSorted"
  using not_sorted_exactly_when_unsorted
          [of "\<lparr>ncols = 2, rows = [[0, 0], [2, 1], [1, 2], [3, 3]]\<rparr>" binary64_arith 3
            linregress_stderr]
        not_sorted_exactly_when_unsorted [of repeated_x binary64_arith 3 linregress_stderr]
  by (simp add: column0_def repeated_x_def)

section \<open>The split target\<close>

lemma sorted_argsort: "sorted (map (\<lambda>i. xs ! i) (argsort xs))"
  by (simp add: argsort_def)

lemma find_max_loop_returns:
  "\<forall>k\<in>set ks. k < length bins \<Longrightarrow> \<exists>r. find_max_loop bins ks = Inr r"
  by (induction ks) auto

lemma find_max_loop_split:
  "find_max_loop bins ks = Inr (Some k) \<Longrightarrow>
   \<exists>pre post. ks = pre @ k # post \<and> (\<forall>j\<in>set pre. length (bins ! j) < 2)"
proof (induction ks)
  case Nil
  then show ?case by simp
next
  case (Cons a ks)
  show ?case
  proof (cases "2 \<le> length (bins ! a)")
    case True
    with Cons.prems have "a = k" by (auto split: if_splits)
    then show ?thesis by (rule_tac x = "[]" in exI, rule_tac x = ks in exI) simp
  next
    case False
    with Cons.prems have "find_max_loop bins ks = Inr (Some k)"
      by (auto split: if_splits)
    from Cons.IH [OF this] obtain pre post where
      "ks = pre @ k # post" and "\<forall>j\<in>set pre. length (bins ! j) < 2"
      by blast
    with False show ?thesis
      by (rule_tac x = "a # pre" in exI, rule_tac x = post in exI) simp
  qed
qed

lemma find_max_bin_returns:
  assumes "length sse = length bins" and "bins \<noteq> []"
  shows "\<exists>mx. find_max_bin bins sse = Inr mx"
proof -
  have "\<forall>k\<in>set (rev (argsort sse)). k < length bins"
    using assms(1) by (simp add: set_argsort)
  from find_max_loop_returns [OF this] obtain r where
    "find_max_loop bins (rev (argsort sse)) = Inr r" ..
  moreover have "argsort sse \<noteq> []"
    using assms length_argsort [of sse] by auto
  ultimately show ?thesis
    by (cases r) (simp_all add: find_max_bin_def)
qed

text \<open>The first half of claim C4 holds: when some bucket has two rows or more, the split
  target has two rows or more, and no bucket of two rows or more has a higher score.\<close>

lemma find_max_bin_eligible:
  assumes len: "length sse = length bins"
    and ex: "\<exists>j<length bins. 2 \<le> length (bins ! j)"
  shows "\<exists>mx<length bins. find_max_bin bins sse = Inr mx \<and> 2 \<le> length (bins ! mx) \<and>
           (\<forall>j<length bins. 2 \<le> length (bins ! j) \<longrightarrow> sse ! j \<le> sse ! mx)"
proof -
  let ?s = "argsort sse"
  have "\<forall>k\<in>set (rev ?s). k < length bins"
    using len by (simp add: set_argsort)
  from find_max_loop_returns [OF this] obtain r where
    r: "find_max_loop bins (rev ?s) = Inr r" ..
  from ex obtain j0 where j0: "j0 < length bins" "2 \<le> length (bins ! j0)" by blast
  then have "j0 \<in> set (rev ?s)"
    using len by (simp add: set_argsort)
  with j0 r have "r \<noteq> None"
    using find_max_loop_None [of bins "rev ?s" j0] by auto
  then obtain mx where mx: "find_max_loop bins (rev ?s) = Inr (Some mx)"
    using r by auto
  then have res: "find_max_bin bins sse = Inr mx"
    by (simp add: find_max_bin_def)
  from find_max_loop_Some [OF mx] have b: "mx < length bins" "2 \<le> length (bins ! mx)"
    by simp_all
  from find_max_loop_split [OF mx] obtain pre post where
    sp: "rev ?s = pre @ mx # post" and small: "\<forall>j\<in>set pre. length (bins ! j) < 2"
    by blast
  from sp have s: "?s = rev post @ mx # rev pre"
    by (metis rev_append rev.simps(2) rev_rev_ident append.assoc append_Cons append_Nil)
  have srt: "sorted (map (\<lambda>i. sse ! i) (rev post @ mx # rev pre))"
    using sorted_argsort [of sse] unfolding s .
  have best: "sse ! j \<le> sse ! mx" if "j < length bins" "2 \<le> length (bins ! j)" for j
  proof -
    from that(1) len have "j \<in> set ?s" by (simp add: set_argsort)
    with that(2) small have "j \<in> set (rev post) \<or> j = mx"
      unfolding s by auto
    with srt show ?thesis
      by (auto simp: sorted_append)
  qed
  from b res best show ?thesis by blast
qed

text \<open>When no bucket has two rows, the function returns the first entry of the ascending
  order: a bucket of the lowest score.\<close>

lemma find_max_bin_fallback:
  assumes len: "length sse = length bins" and ne: "bins \<noteq> []"
    and small: "\<forall>j<length bins. length (bins ! j) < 2"
  shows "find_max_bin bins sse = Inr (argsort sse ! 0) \<and>
         (\<forall>j<length bins. sse ! (argsort sse ! 0) \<le> sse ! j)"
proof -
  let ?s = "argsort sse"
  have in_range: "\<forall>k\<in>set (rev ?s). k < length bins"
    using len by (simp add: set_argsort)
  from find_max_loop_returns [OF this] obtain r where
    r: "find_max_loop bins (rev ?s) = Inr r" ..
  have "r = None"
  proof (cases r)
    case None
    then show ?thesis .
  next
    case (Some k)
    with r find_max_loop_Some [of bins "rev ?s" k] small show ?thesis by force
  qed
  moreover have s_ne: "?s \<noteq> []"
    using len ne length_argsort [of sse] by auto
  ultimately have res: "find_max_bin bins sse = Inr (?s ! 0)"
    using r by (simp add: find_max_bin_def)
  have lowest: "sse ! (?s ! 0) \<le> sse ! j" if "j < length bins" for j
  proof -
    from that len have "j \<in> set ?s" by (simp add: set_argsort)
    then obtain m where m: "m < length ?s" "?s ! m = j"
      by (auto simp: in_set_conv_nth)
    have "map (\<lambda>i. sse ! i) ?s ! 0 \<le> map (\<lambda>i. sse ! i) ?s ! m"
      using sorted_argsort [of sse] m(1) by (intro sorted_nth_mono) simp_all
    with m s_ne show ?thesis by simp
  qed
  from res lowest show ?thesis by blast
qed

text \<open>Claim C4. Its second half fails on the code: with two buckets of one row each and
  the scores 1 and 2, the bucket of the highest score is bucket 1, and the function
  returns bucket 0.\<close>

theorem find_max_bin_returns_lowest:
  "find_max_bin [[[1, 1]], [[2, 2]]] [1, 2] = Inr 0"
  by code_simp

section \<open>One refinement pass over two buckets\<close>

lemma bin_with_neighbours_returns:
  assumes "d \<noteq> []" and "2 \<le> length bins" and "\<forall>b\<in>set bins. b \<noteq> []" and "i < length bins"
  shows "\<exists>b. bin_with_neighbours d bins i = Inr b"
proof -
  have "bins ! j \<noteq> []" if "j < length bins" for j
    using assms(3) that by simp
  then show ?thesis
    using assms(1,2,4) by (auto simp: bin_with_neighbours_def)
qed

lemma sse_loop_returns:
  assumes "d \<noteq> []" and "2 \<le> length bins" and "\<forall>b\<in>set bins. b \<noteq> []"
    and "\<forall>i\<in>set is. i < length bins"
  shows "\<exists>sse. sse_loop stderr d bins is = Inr sse"
  using assms(4)
proof (induction "is")
  case Nil
  then show ?case by simp
next
  case (Cons i "is")
  then obtain sse where "sse_loop stderr d bins is = Inr sse" by auto
  moreover obtain b where "bin_with_neighbours d bins i = Inr b"
    using bin_with_neighbours_returns [OF assms(1-3), of i] Cons.prems by auto
  ultimately show ?case by simp
qed

lemma find_min_bin_two: "length sse = 2 \<Longrightarrow> find_min_bin sse = Inr 0"
  by (simp add: find_min_bin_def)

text \<open>With two buckets the merge pair is the pair of both, and the split target is one of
  them: either bucket 1 is dropped or it is stored twice.\<close>

lemma resize_two_bins:
  assumes lb: "bins = [b0, b1]" and ls: "length sse = 2" and ne: "b1 \<noteq> []"
  shows "resize_bins bins sse = Inr (array_split b0 2) \<or>
         resize_bins bins sse = Inr ((b0 @ b1) # array_split b1 2)"
proof -
  have "length sse = length bins" and "bins \<noteq> []"
    using lb ls by simp_all
  from find_max_bin_returns [OF this] obtain mx where mx: "find_max_bin bins sse = Inr mx" ..
  from find_max_bin_less [OF mx] ls have "mx = 0 \<or> mx = 1" by auto
  then show ?thesis
  proof
    assume "mx = 0"
    with mx lb ls have "resize_bins bins sse = Inr (array_split b0 2)"
      by (simp add: resize_bins_def find_min_bin_two upt_rec)
    then show ?thesis ..
  next
    assume "mx = 1"
    with mx lb ls have "resize_bins bins sse = Inr ((b0 @ b1) # array_split b1 2)"
      by (simp add: resize_bins_def find_min_bin_two upt_rec)
    then show ?thesis ..
  qed
qed

lemma split_data_two_buckets:
  assumes "valid_input data 4" and "40 \<le> length (rows data)" and "length (rows data) < 80"
  shows "\<exists>bins. split_data stderr (rows data) 4 = Inr bins \<and>
           \<not> (length bins = 2 \<and> concat bins = interior (rows data))"
proof -
  let ?d = "rows data" and ?bins = "static_bins (rows data) 4"
  have d: "?d \<noteq> []" using assms(2) by auto
  have "int (length ?d) div 40 = 1"
    using assms(2,3) by linarith
  then have it: "iteration_num ?d 4 = Suc 0"
    by (simp add: iteration_num_def)
  have l: "length ?bins = 2"
    by (simp add: length_static_bins)
  then obtain b0 b1 where b: "?bins = [b0, b1]"
    by (metis (no_types) length_0_conv length_Suc_conv numeral_2_eq_2)
  have c: "concat ?bins = interior ?d"
    by (simp add: concat_static_bins)
  have ne: "\<forall>x\<in>set ?bins. x \<noteq> []"
    using static_bins_nonempty [of 4 ?d] assms(2) by auto
  then have b1: "b1 \<noteq> []" using b by simp
  from sse_loop_returns [OF d _ ne, of "[0..<length ?bins]" stderr] l
  obtain sse where sse: "sse_loop stderr ?d ?bins [0..<length ?bins] = Inr sse"
    by auto
  have ls: "length sse = 2"
    using length_sse_loop [OF sse] l by simp
  have sd: "split_data stderr ?d 4 = resize_bins ?bins sse"
    using it sse by (simp add: split_data_def static_bins_def split: sum.splits)
  from resize_two_bins [OF b ls b1] show ?thesis
  proof
    assume r: "resize_bins ?bins sse = Inr (array_split b0 2)"
    have "b0 @ b1 = interior ?d"
      using c b by simp
    then have "b0 \<noteq> interior ?d"
      using b1 by (metis append_self_conv)
    then have "concat (array_split b0 2) \<noteq> interior ?d"
      by (simp add: concat_array_split)
    with sd r show ?thesis by simp
  next
    assume r: "resize_bins ?bins sse = Inr ((b0 @ b1) # array_split b1 2)"
    have "length ((b0 @ b1) # array_split b1 2) = 3"
      by (simp add: length_array_split)
    with sd r show ?thesis by simp
  qed
qed

text \<open>Claim C1 fails on the code. On the valid input of the forty points \<open>(i, i)\<close> with
  \<open>n_out = 4\<close> the dynamic variant makes one refinement pass over two buckets, and the
  bucket list after the pass is no partition of the interior into \<open>n_out - 2 = 2\<close>
  buckets, whatever the score function: either the second bucket is lost, or it is kept
  twice and there are three buckets.\<close>

theorem refinement_breaks_partition:
  "\<exists>bins. split_data stderr (rows (line_series 40)) 4 = Inr bins \<and>
          \<not> (length bins = 2 \<and> concat bins = interior (rows (line_series 40)))"
  by (rule split_data_two_buckets) (simp_all add: valid_line_series, simp_all add: line_series_def)

section \<open>The largest triangle\<close>

text \<open>One pass of the loop, in either variant: when the bucket holds neither stored
  extreme row, the row it stores is the first row of the bucket whose computed area
  \<^verbatim>\<open>np.argmax\<close> ranks highest.\<close>

lemma choose_point_largest_triangle:
  assumes c: "choose_point ar d nb bins mx mn i out = Inr p"
    and nmx: "mx \<notin> set (bins ! i)" and nmn: "mn \<notin> set (bins ! i)"
    and nb: "next_bin_of d nb bins i = Inr nxt"
  shows "\<exists>k<length (bins ! i). p = bins ! i ! k \<and>
           (\<forall>j<length (bins ! i).
              np_le (triangle_area ar (out ! i) (mean_axis0 ar nxt) (bins ! i ! j))
                    (triangle_area ar (out ! i) (mean_axis0 ar nxt) (bins ! i ! k))) \<and>
           (\<forall>j<k.
              \<not> np_le (triangle_area ar (out ! i) (mean_axis0 ar nxt) (bins ! i ! k))
                      (triangle_area ar (out ! i) (mean_axis0 ar nxt) (bins ! i ! j)))"
proof -
  let ?b = "bins ! i"
  let ?areas = "area_of_triangles ar ?b (out ! i) (mean_axis0 ar nxt)"
  let ?k = "np_argmax ?areas"
  from c nmx nmn nb have b: "?b \<noteq> []" and p: "p = ?b ! ?k"
    by (auto simp: choose_point_def Let_def split: if_splits)
  have la: "length ?areas = length ?b"
    by (simp add: area_of_triangles_def)
  have "?areas \<noteq> []"
    using b la by (metis length_0_conv)
  from np_argmax_first_greatest [OF this]
  have k: "?k < length ?b"
    and ge: "\<forall>j<length ?b. np_le (?areas ! j) (?areas ! ?k)"
    and gt: "\<forall>j<?k. \<not> np_le (?areas ! ?k) (?areas ! j)"
    unfolding la by blast+
  have A: "?areas ! j = triangle_area ar (out ! i) (mean_axis0 ar nxt) (?b ! j)"
    if "j < length ?b" for j
    using that by (simp add: area_of_triangles_def)
  have "\<forall>j<length ?b. np_le (triangle_area ar (out ! i) (mean_axis0 ar nxt) (?b ! j))
                           (triangle_area ar (out ! i) (mean_axis0 ar nxt) (?b ! ?k))"
    using ge k by (simp add: A)
  moreover
  have "\<forall>j<?k. \<not> np_le (triangle_area ar (out ! i) (mean_axis0 ar nxt) (?b ! ?k))
                        (triangle_area ar (out ! i) (mean_axis0 ar nxt) (?b ! j))"
    using gt k by (simp add: A)
  ultimately show ?thesis
    using k p by blast
qed




text \<open>Under exact arithmetic the computed area is the area of the shoelace formula and
  the computed mean is the centroid, so that the pass stores the first point of the
  bucket with the largest area of the specification.\<close>

lemma triangle_area_exact:
  "triangle_area exact_arith p [Finite nx, Finite ny] b
     = Finite (shoelace_area (point_of p) (point_of b) (nx, ny))"
proof -
  have "(p ! 0 - nx) * (b ! 1 - p ! 1) - (p ! 0 - b ! 0) * (ny - p ! 1)
          = p ! 0 * (b ! 1 - ny) + b ! 0 * (ny - p ! 1) + nx * (p ! 1 - b ! 1)"
    by (simp add: algebra_simps)
  then show ?thesis
    by (simp add: triangle_area_def exact_arith_def shoelace_area_def point_of_def)
qed

lemma mean_axis0_exact:
  assumes "nxt \<noteq> []"
  shows "mean_axis0 exact_arith nxt = [Finite (fst (centroid nxt)), Finite (snd (centroid nxt))]"
proof -
  have "np_sum exact_arith xs = Finite (sum_list xs)" for xs
    by (cases xs rule: remdups_adj.cases) (simp_all add: np_sum_def exact_arith_def)
  with assms show ?thesis
    by (simp add: mean_axis0_def centroid_def exact_arith_def)
qed

lemma choose_point_largest_shoelace:
  assumes c: "choose_point exact_arith d nb bins mx mn i out = Inr p"
    and nmx: "mx \<notin> set (bins ! i)" and nmn: "mn \<notin> set (bins ! i)"
    and nb: "next_bin_of d nb bins i = Inr nxt" and ne: "nxt \<noteq> []"
  shows "\<exists>k<length (bins ! i). p = bins ! i ! k \<and>
           (\<forall>j<length (bins ! i).
              shoelace_area (point_of (out ! i)) (point_of (bins ! i ! j)) (centroid nxt)
                \<le> shoelace_area (point_of (out ! i)) (point_of (bins ! i ! k)) (centroid nxt)) \<and>
           (\<forall>j<k.
              shoelace_area (point_of (out ! i)) (point_of (bins ! i ! j)) (centroid nxt)
                < shoelace_area (point_of (out ! i)) (point_of (bins ! i ! k)) (centroid nxt))"
proof -
  have a: "triangle_area exact_arith (out ! i) (mean_axis0 exact_arith nxt) b
             = Finite (shoelace_area (point_of (out ! i)) (point_of b) (centroid nxt))" for b
    unfolding mean_axis0_exact [OF ne] triangle_area_exact by simp
  from choose_point_largest_triangle [OF c nmx nmn nb] show ?thesis
    unfolding a by (simp add: not_le)
qed

text \<open>The rounding matters. In the series \<open>(0, 0), (1, 2.3000000000000003), (2, 3.6),
  (3, 3.9)\<close> of binary64 numbers with \<open>n_out = 3\<close>, the exact area is larger for the
  first point of the bucket and the computed area is larger for the second one, which the
  code stores.\<close>

lemma rounding_changes_the_choice:
  "lttb exact_arith rounding_series 3
     = Inr \<lparr>ncols = 2, rows = [rows rounding_series ! 0, rows rounding_series ! 1,
                                rows rounding_series ! 3]\<rparr> \<and>
   lttb binary64_arith rounding_series 3
     = Inr \<lparr>ncols = 2, rows = [rows rounding_series ! 0, rows rounding_series ! 2,
                                rows rounding_series ! 3]\<rparr>"
  by code_simp

section \<open>The extreme points\<close>

lemma series_ends_interior:
  assumes "2 \<le> length d"
  shows "d = d ! 0 # interior d @ [d ! (length d - 1)]"
proof -
  from assms obtain x xs where d: "d = x # xs"
    by (cases d) auto
  with assms have xs: "xs \<noteq> []"
    by auto
  have "xs = butlast xs @ [last xs]"
    using xs by simp
  moreover have "interior d = butlast xs"
    using d xs by (cases xs) (simp_all add: interior_def butlast_conv_take)
  moreover have "d ! (length d - 1) = last xs"
    using d xs by (simp add: last_conv_nth)
  ultimately show ?thesis
    using d by simp
qed

lemma in_one_bucket:
  assumes "distinct (concat xs)" and "i < length xs" and "j < length xs"
    and "x \<in> set (xs ! i)" and "x \<in> set (xs ! j)"
  shows "i = j"
  using assms
proof (induction xs arbitrary: i j)
  case Nil
  then show ?case by simp
next
  case (Cons a xs)
  have disj: "set a \<inter> set (concat xs) = {}" and dist: "distinct (concat xs)"
    using Cons.prems(1) by simp_all
  have out: "x \<notin> set a" if "k < length xs" "x \<in> set (xs ! k)" for k
  proof -
    from that have "x \<in> set (concat xs)"
      by (auto intro: nth_mem)
    with disj show ?thesis by auto
  qed
  show ?case
  proof (cases i)
    case 0
    note i0 = this
    show ?thesis
    proof (cases j)
      case 0
      with i0 show ?thesis by simp
    next
      case (Suc j')
      with i0 Cons.prems out [of j'] show ?thesis by auto
    qed
  next
    case (Suc i')
    note i = this
    show ?thesis
    proof (cases j)
      case 0
      with i Cons.prems out [of i'] show ?thesis by auto
    next
      case (Suc j')
      with i Cons.prems Cons.IH [OF dist, of i' j'] show ?thesis by auto
    qed
  qed
qed

lemma index_of_first_entry: "xs \<noteq> [] \<Longrightarrow> xs ! 0 = v \<Longrightarrow> index_of v xs = 0"
  by (cases xs) auto

lemma max_point_of_first_when_equal:
  assumes d: "d \<noteq> []" and e: "max_point_of d = min_point_of d"
  shows "max_point_of d = d ! 0"
proof -
  let ?ys = "map (\<lambda>r. r ! 1) d"
  have ne: "?ys \<noteq> []" using d by simp
  have "max_point_of d ! 1 = ?ys ! argmax ?ys"
    using argmax_less [OF ne] by (simp add: max_point_of_def)
  then have mx: "max_point_of d ! 1 = Max (set ?ys)"
    by (simp only: nth_argmax [OF ne])
  have "min_point_of d ! 1 = ?ys ! argmin ?ys"
    using argmin_less [OF ne] by (simp add: min_point_of_def)
  then have mn: "min_point_of d ! 1 = Min (set ?ys)"
    by (simp only: nth_argmin [OF ne])
  from e mx mn have eq: "Max (set ?ys) = Min (set ?ys)" by simp
  have "?ys ! 0 \<in> set ?ys" using ne by simp
  then have "Min (set ?ys) \<le> ?ys ! 0" and "?ys ! 0 \<le> Max (set ?ys)"
    by simp_all
  with eq have "?ys ! 0 = Max (set ?ys)" by simp
  then have "argmax ?ys = 0"
    using ne unfolding argmax_def by (intro index_of_first_entry)
  then show ?thesis by (simp add: max_point_of_def)
qed

lemma choose_point_max:
  "mx \<in> set (bins ! i) \<Longrightarrow> choose_point ar d nb bins mx mn i out = Inr mx"
  by (simp add: choose_point_def)

lemma choose_point_min:
  "mx \<notin> set (bins ! i) \<Longrightarrow> mn \<in> set (bins ! i) \<Longrightarrow>
   choose_point ar d nb bins mx mn i out = Inr mn"
  by (simp add: choose_point_def)

lemma choose_point_is_min:
  assumes "choose_point ar d nb bins mx mn i out = Inr mn"
  shows "(mx \<in> set (bins ! i) \<and> mx = mn) \<or> mn \<in> set (bins ! i)"
proof -
  have "bins ! i \<noteq> [] \<Longrightarrow>
        bins ! i ! np_argmax (area_of_triangles ar (bins ! i) q r) \<in> set (bins ! i)" for q r
    using np_argmax_less [of "area_of_triangles ar (bins ! i) q r"]
    by (simp add: area_of_triangles_def)
  then show ?thesis
    using assms
    by (auto simp: choose_point_def Let_def split: if_splits sum.splits)
qed

lemma extrema_share_bucket_iff:
  "extrema_share_bucket d n_out \<longleftrightarrow>
     (\<exists>i<length (static_bins d n_out).
        max_point_of d \<in> set (static_bins d n_out ! i) \<and>
        min_point_of d \<in> set (static_bins d n_out ! i))"
  by (simp add: extrema_share_bucket_def list_ex_length)

text \<open>The static variant on a valid input longer than \<open>n_out\<close>: the maximum point is
  kept; the minimum point is kept unless it shares a bucket with the maximum point; and
  with strictly ascending x it is lost when it does.\<close>

lemma lttb_extrema:
  assumes v: "valid_input data n_out" and lt: "n_out < int (length (rows data))"
  shows "\<exists>out. lttb ar data n_out = Inr out \<and>
           max_point_of (rows data) \<in> set (rows out) \<and>
           (\<not> extrema_share_bucket (rows data) n_out \<longrightarrow>
              min_point_of (rows data) \<in> set (rows out)) \<and>
           (extrema_share_bucket (rows data) n_out \<and> sorted_wrt (<) (column0 data) \<longrightarrow>
              min_point_of (rows data) \<notin> set (rows out))"
proof -
  let ?d = "rows data" and ?bins = "static_bins (rows data) n_out"
  let ?mx = "max_point_of (rows data)" and ?mn = "min_point_of (rows data)"
  from v have n3: "3 \<le> n_out" by (simp add: valid_input_def)
  have d: "?d \<noteq> []" and d2: "2 \<le> length ?d" using n3 lt by auto
  have lb: "length ?bins = nat (n_out - 2)"
    using n3 by (rule length_static_bins)
  have cb: "concat ?bins = interior ?d"
    using n3 by (rule concat_static_bins)
  from lttb_result [OF v lt] obtain out where
    r: "lttb ar data n_out = Inr \<lparr>ncols = 2, rows = out\<rparr>" and
    len: "length out = nat n_out" and
    first: "out ! 0 = ?d ! 0" and
    last: "out ! (nat n_out - 1) = ?d ! (length ?d - 1)" and
    ch: "\<forall>i<nat (n_out - 2). choose_point ar ?d (n_out - 2) ?bins ?mx ?mn i out = Inr (out ! Suc i)"
    by blast
  have chi: "choose_point ar ?d (n_out - 2) ?bins ?mx ?mn i out = Inr (out ! Suc i)"
    if "i < length ?bins" for i
    using ch lb that by simp
  have first_in: "?d ! 0 \<in> set out"
    using first len n3 by (metis nth_mem zero_less_nat_eq less_le_trans zero_less_numeral)
  have "nat n_out - 1 < length out" using len n3 by simp
  then have last_in: "?d ! (length ?d - 1) \<in> set out"
    using last by (metis nth_mem)
  have stored: "out ! Suc i \<in> set out" if "i < length ?bins" for i
    using that lb len n3 by (intro nth_mem) simp
  have split: "set ?d = {?d ! 0, ?d ! (length ?d - 1)} \<union> set (interior ?d)"
    by (subst series_ends_interior [OF d2]) auto
  have bucket: "\<exists>i<length ?bins. p \<in> set (?bins ! i)" if "p \<in> set (interior ?d)" for p
    using that cb by (metis in_set_conv_nth set_concat UN_iff)
  \<comment> \<open>the maximum point\<close>
  have mx_kept: "?mx \<in> set out"
  proof (cases "?mx \<in> set (interior ?d)")
    case True
    from bucket [OF this] obtain i where i: "i < length ?bins" "?mx \<in> set (?bins ! i)"
      by blast
    with chi [OF i(1)] have "out ! Suc i = ?mx"
      by (simp add: choose_point_max)
    with stored [OF i(1)] show ?thesis by simp
  next
    case False
    with max_point_of_in_set [OF d] split first_in last_in show ?thesis by auto
  qed
  \<comment> \<open>the minimum point, apart from the maximum point\<close>
  have mn_kept: "?mn \<in> set out" if ns: "\<not> extrema_share_bucket ?d n_out"
  proof (cases "?mn \<in> set (interior ?d)")
    case True
    from bucket [OF this] obtain i where i: "i < length ?bins" "?mn \<in> set (?bins ! i)"
      by blast
    with ns have "?mx \<notin> set (?bins ! i)"
      by (auto simp: extrema_share_bucket_iff)
    with i chi [OF i(1)] have "out ! Suc i = ?mn"
      by (simp add: choose_point_min)
    with stored [OF i(1)] show ?thesis by simp
  next
    case False
    with min_point_of_in_set [OF d] split first_in last_in show ?thesis by auto
  qed
  \<comment> \<open>the minimum point in the bucket of the maximum point\<close>
  have mn_lost: "?mn \<notin> set out"
    if sh: "extrema_share_bucket ?d n_out" and strict: "sorted_wrt (<) (column0 data)"
  proof
    assume "?mn \<in> set out"
    then obtain j where j: "j < length out" "out ! j = ?mn"
      by (auto simp: in_set_conv_nth)
    from strict have "distinct (column0 data)"
      using strict_sorted_iff by blast
    then have "distinct ?d"
      by (simp add: column0_def distinct_map)
    then have dist: "distinct (?d ! 0 # interior ?d @ [?d ! (length ?d - 1)])"
      using series_ends_interior [OF d2] by simp
    then have dc: "distinct (concat ?bins)"
      using cb by simp
    from dist have f_out: "?d ! 0 \<notin> set (interior ?d)"
      and l_out: "?d ! (length ?d - 1) \<notin> set (interior ?d)"
      by auto
    from sh obtain i0 where i0: "i0 < length ?bins" "?mx \<in> set (?bins ! i0)"
      "?mn \<in> set (?bins ! i0)"
      by (auto simp: extrema_share_bucket_iff)
    have inner: "p \<in> set (interior ?d)" if "p \<in> set (?bins ! i0)" for p
      using that i0(1) cb by (metis nth_mem set_concat UN_iff)
    have neq: "?mx \<noteq> ?mn"
    proof
      assume "?mx = ?mn"
      from max_point_of_first_when_equal [OF d this] inner [OF i0(2)] f_out
      show False by simp
    qed
    consider "j = 0" | "j = nat n_out - 1" | i where "j = Suc i" "i < length ?bins"
      using j(1) len lb n3 by (cases j) (auto, linarith)
    then show False
    proof cases
      case 1
      with j first inner [OF i0(3)] f_out show False by simp
    next
      case 2
      with j last inner [OF i0(3)] l_out show False by simp
    next
      case 3
      with chi [OF 3(2)] j have "choose_point ar ?d (n_out - 2) ?bins ?mx ?mn i out = Inr ?mn"
        by simp
      from choose_point_is_min [OF this] neq have mi: "?mn \<in> set (?bins ! i)"
        by auto
      from in_one_bucket [OF dc 3(2) i0(1) mi i0(3)] have "i = i0" .
      with chi [OF 3(2)] i0 have "out ! Suc i = ?mx"
        by (simp add: choose_point_max)
      with 3 j neq show False by simp
    qed
  qed
  from r mx_kept mn_kept mn_lost show ?thesis by simp
qed

text \<open>Claim C2, as stated, fails. The claim says that a minimum point in the bucket of the
  maximum point is not preserved elsewhere. The buckets are searched by value, so a later
  bucket that holds a row equal to the minimum point stores it: in the series
  \<open>(0, 0), (1, 5), (2, -1), (2, -1), (3, 0)\<close> with \<open>n_out = 4\<close> the first bucket holds the
  maximum \<open>(1, 5)\<close> and the minimum \<open>(2, -1)\<close>, and the minimum is in the output of both
  variants.\<close>

theorem repeated_minimum_counterexample:
  "valid_input repeated_minimum 4 \<and>
   extrema_share_bucket (rows repeated_minimum) 4 \<and>
   max_point_of (rows repeated_minimum) = [1, 5] \<and>
   min_point_of (rows repeated_minimum) = [2, -1] \<and>
   lttb binary64_arith repeated_minimum 4 = Inr \<lparr>ncols = 2, rows = [[0, 0], [1, 5], [2, -1], [3, 0]]\<rparr> \<and>
   ltd binary64_arith linregress_stderr repeated_minimum 4
     = Inr \<lparr>ncols = 2, rows = [[0, 0], [1, 5], [2, -1], [3, 0]]\<rparr> \<and>
   min_point_of (rows repeated_minimum) \<in> set [[0, 0], [1, 5], [2, -1], [3, 0]]"
proof -
  have v: "valid_input repeated_minimum 4"
    by (simp add: valid_input_def repeated_minimum_def column0_def)
  have s: "extrema_share_bucket (rows repeated_minimum) 4"
    by code_simp
  have mx: "max_point_of (rows repeated_minimum) = [1, 5]"
    by code_simp
  have mn: "min_point_of (rows repeated_minimum) = [2, -1]"
    by code_simp
  have r: "lttb binary64_arith repeated_minimum 4 = Inr \<lparr>ncols = 2, rows = [[0, 0], [1, 5], [2, -1], [3, 0]]\<rparr>"
    by code_simp
  have "int (length (rows repeated_minimum)) < 4 * 10"
    by (simp add: repeated_minimum_def)
  then have "ltd binary64_arith linregress_stderr repeated_minimum 4 = lttb binary64_arith repeated_minimum 4"
    by (rule ltd_eq_lttb_small)
  with v s mx mn r show ?thesis by simp
qed

text \<open>Claim C2, amended. On every valid input, the static variant, and the dynamic variant
  when it makes no refinement pass (fewer than \<open>10 * n_out\<close> rows), return an array in
  which the first point of maximal y appears; the first point of minimal y appears in it
  unless some bucket holds both points; and when some bucket holds both, \<open>n_out\<close> is
  below the number of rows and the x column is strictly ascending, the minimum point does
  not appear in it.\<close>

theorem extrema_in_output:
  assumes v: "valid_input data n_out"
    and res: "result = lttb ar data n_out \<or>
              (int (length (rows data)) < n_out * 10 \<and> result = ltd ar stderr data n_out)"
  shows "\<exists>out. result = Inr out \<and>
           max_point_of (rows data) \<in> set (rows out) \<and>
           (\<not> extrema_share_bucket (rows data) n_out \<longrightarrow>
              min_point_of (rows data) \<in> set (rows out)) \<and>
           (extrema_share_bucket (rows data) n_out \<and> n_out < int (length (rows data)) \<and>
            sorted_wrt (<) (column0 data) \<longrightarrow>
              min_point_of (rows data) \<notin> set (rows out))"
proof -
  from res have result: "result = lttb ar data n_out"
    by (auto simp: ltd_eq_lttb_small)
  show ?thesis
  proof (cases "n_out = int (length (rows data))")
    case True
    with v have "lttb ar data n_out = Inr data" and "rows data \<noteq> []"
      by (auto simp: lttb_def valid_input_def not_sorted_iff)
    with True result show ?thesis
      by (simp add: max_point_of_in_set min_point_of_in_set)
  next
    case False
    with v have "n_out < int (length (rows data))"
      by (simp add: valid_input_def)
    from lttb_extrema [OF v this] result show ?thesis
      by auto
  qed
qed

text \<open>The ten-point series of the specification (the extreme points in no common bucket: both
  are kept), and a series with strictly ascending x whose extreme points share the first
  bucket (the minimum is lost).\<close>

theorem extrema_in_output_witness:
  "valid_input scenario_series 5 \<and> \<not> extrema_share_bucket (rows scenario_series) 5 \<and>
   max_point_of (rows scenario_series) = [3, 9] \<and>
   min_point_of (rows scenario_series) = [0, 0] \<and>
   (\<exists>out. ltd binary64_arith linregress_stderr scenario_series 5 = Inr out \<and>
      [3, 9] \<in> set (rows out) \<and> [0, 0] \<in> set (rows out)) \<and>
   valid_input shared_bucket_series 4 \<and> extrema_share_bucket (rows shared_bucket_series) 4 \<and>
   sorted_wrt (<) (column0 shared_bucket_series) \<and>
   max_point_of (rows shared_bucket_series) = [1, 5] \<and>
   min_point_of (rows shared_bucket_series) = [2, -1] \<and>
   (\<exists>out. lttb binary64_arith shared_bucket_series 4 = Inr out \<and>
      [1, 5] \<in> set (rows out) \<and> [2, -1] \<notin> set (rows out))"
proof -
  have v1: "valid_input scenario_series 5"
    by (simp add: valid_input_def scenario_series_def column0_def)
  have n1: "int (length (rows scenario_series)) < 5 * 10"
    by (simp add: scenario_series_def)
  have s1: "\<not> extrema_share_bucket (rows scenario_series) 5"
    by code_simp
  have mx1: "max_point_of (rows scenario_series) = [3, 9]"
    by code_simp
  have mn1: "min_point_of (rows scenario_series) = [0, 0]"
    by code_simp
  have v2: "valid_input shared_bucket_series 4"
    by (simp add: valid_input_def shared_bucket_series_def column0_def)
  have n2: "4 < int (length (rows shared_bucket_series))"
    by (simp add: shared_bucket_series_def)
  have s2: "extrema_share_bucket (rows shared_bucket_series) 4"
    by code_simp
  have st2: "sorted_wrt (<) (column0 shared_bucket_series)"
    by (simp add: shared_bucket_series_def column0_def)
  have mx2: "max_point_of (rows shared_bucket_series) = [1, 5]"
    by code_simp
  have mn2: "min_point_of (rows shared_bucket_series) = [2, -1]"
    by code_simp
  from extrema_in_output [OF v1, of "ltd binary64_arith linregress_stderr scenario_series 5"
      binary64_arith linregress_stderr]
    n1 s1
  have a: "\<exists>out. ltd binary64_arith linregress_stderr scenario_series 5 = Inr out \<and>
      [3, 9] \<in> set (rows out) \<and> [0, 0] \<in> set (rows out)"
    unfolding mx1 mn1 by blast
  from extrema_in_output [OF v2, of "lttb binary64_arith shared_bucket_series 4"
      binary64_arith linregress_stderr]
    n2 s2 st2
  have b: "\<exists>out. lttb binary64_arith shared_bucket_series 4 = Inr out \<and>
      [1, 5] \<in> set (rows out) \<and> [2, -1] \<notin> set (rows out)"
    unfolding mx2 mn2 by blast
  from v1 s1 mx1 mn1 a v2 s2 st2 mx2 mn2 b show ?thesis
    by blast
qed

section \<open>A pass that keeps the partition\<close>

text \<open>What one pass over the buckets stores, bucket by bucket.\<close>

lemma resize_loop_concat:
  assumes "resize_loop bins mx mn [0..<n] acc = Inr r"
  shows "concat r = concat acc @
           concat (map (\<lambda>i. if i = mx then bins ! i
                             else if i = mn then bins ! i @ bins ! (i + 1)
                             else if i = mn + 1 then [] else bins ! i) [0..<n])"
  using assms
proof (induction n arbitrary: r)
  case 0
  then show ?case by simp
next
  case (Suc n)
  from Suc.prems obtain r1 where
    p: "resize_loop bins mx mn [0..<n] acc = Inr r1" and
    s: "resize_loop bins mx mn [n] r1 = Inr r"
    by (auto simp: resize_loop_append split: sum.splits)
  have "concat r = concat r1 @
      (if n = mx then bins ! n else if n = mn then bins ! n @ bins ! (n + 1)
       else if n = mn + 1 then [] else bins ! n)"
  proof (cases "n = mx")
    case True
    with s have "r = r1 @ array_split (bins ! n) 2" by simp
    with True show ?thesis by (simp add: concat_array_split)
  next
    case False
    note not_max = this
    show ?thesis
    proof (cases "n = mn")
      case True
      with not_max s have "r = r1 @ [bins ! n @ bins ! (n + 1)]"
        by (simp split: if_splits)
      with not_max True show ?thesis by simp
    next
      case False
      with not_max s have "r = (if n = mn + 1 then r1 else r1 @ [bins ! n])"
        by (simp split: if_splits)
      with not_max False show ?thesis by simp
    qed
  qed
  with Suc.IH [OF p] show ?case by simp
qed

lemma concat_merged_pair_upto:
  assumes "Suc mn < length bins" and "mx \<noteq> mn" and "mx \<noteq> Suc mn" and "n \<le> length bins"
  shows "concat (map (\<lambda>i. if i = mx then bins ! i
                             else if i = mn then bins ! i @ bins ! (i + 1)
                             else if i = mn + 1 then [] else bins ! i) [0..<n])
         = concat (take (if n = Suc mn then Suc n else n) bins)"
  using assms(4)
proof (induction n)
  case 0
  then show ?case by simp
next
  case (Suc n)
  then have n: "n < length bins" by simp
  note ih = Suc.IH [OF less_imp_le [OF n]]
  consider "n = mn" | "n = Suc mn" | "n \<noteq> mn" "n \<noteq> Suc mn" by blast
  then show ?case
  proof cases
    case 1
    have "take (Suc (Suc mn)) bins = take mn bins @ [bins ! mn, bins ! Suc mn]"
      using assms(1) by (simp add: take_Suc_conv_app_nth)
    with 1 ih assms(2) show ?thesis by simp
  next
    case 2
    with ih assms(3) show ?thesis by simp
  next
    case 3
    with ih n show ?thesis by (simp add: take_Suc_conv_app_nth)
  qed
qed

lemma concat_merged_pair:
  assumes "Suc mn < length bins" and "mx \<noteq> mn" and "mx \<noteq> Suc mn"
  shows "concat (map (\<lambda>i. if i = mx then bins ! i
                             else if i = mn then bins ! i @ bins ! (i + 1)
                             else if i = mn + 1 then [] else bins ! i) [0..<length bins])
         = concat bins"
  using concat_merged_pair_upto [OF assms le_refl] assms(1) by simp

text \<open>The invariant of claim C1 survives every pass whose split target is neither bucket
  of the merge pair.\<close>

lemma resize_bins_partition:
  assumes r: "resize_bins bins sse = Inr bins'" and len: "length sse = length bins"
    and mx: "find_max_bin bins sse = Inr mx" and mn: "find_min_bin sse = Inr mn"
    and apart: "mx \<noteq> mn" "mx \<noteq> Suc mn"
  shows "length bins' = length bins \<and> concat bins' = concat bins"
proof -
  from r mx mn have l: "resize_loop bins mx mn [0..<length bins] [] = Inr bins'"
    by (simp add: resize_bins_def)
  have m: "Suc mn < length bins"
    using find_min_bin_less [OF mn] len by simp
  have x: "mx < length bins"
    using find_max_bin_less [OF mx] len by simp
  from resize_loop_length [OF l] m x apart have "length bins' = length bins"
    by simp
  moreover from resize_loop_concat [OF l] concat_merged_pair [OF m apart]
  have "concat bins' = concat bins" by simp
  ultimately show ?thesis ..
qed

end
